theory Spec2Isabelle
  imports Main "HOL-Library.Word"
begin

section \<open>SequentialBlockFile: a sliding window of interleaved sample blocks\<close>

text \<open>
  The development embeds \<^verbatim>\<open>SequentialBlockFile.cpp\<close> of the record node's binary format.
  Conventions of the embedding:
  \<^item> a C++ \<^verbatim>\<open>int\<close> is an \<^typ>\<open>int\<close>; signed overflow is undefined in C++ and no
    wrap-around is attached to it;
  \<^item> \<^verbatim>\<open>uint64\<close>, \<^verbatim>\<open>size_t\<close> and \<^verbatim>\<open>unsigned int\<close> are words, whose arithmetic
    wraps; every conversion between the signed and the unsigned world that the
    compiler inserts is written out (\<open>word_of_int\<close> towards unsigned, \<open>sint\<close> back);
  \<^item> undefined behaviour (a null block pointer, an access outside a buffer, a division
    by zero) is an \<open>error\<close> value, so that every theorem about a result is a theorem
    about a run that stayed defined.
\<close>

type_synonym int16 = "16 word"
type_synonym uint32 = "32 word"
type_synonym uint64 = "64 word"

datatype error = NullPointer | OutOfBounds | DivideByZero

subsection \<open>The backing stream and the block (collaborators)\<close>

text \<open>
  Modelled from the spec: the output stream behind \<^verbatim>\<open>m_file\<close> (JUCE's FileOutputStream,
  not part of the sources at hand). The spec describes an append-only sink whose
  append primitive may fail. \<open>written\<close> is what has reached the file, in samples;
  a stream that is not \<open>healthy\<close> fails every append and the file keeps its content.
\<close>

record FileOutputStream =
  written :: "int16 list"
  healthy :: bool

definition stream_write :: "FileOutputStream \<Rightarrow> int16 list \<Rightarrow> FileOutputStream" where
  "stream_write f xs = (if healthy f then f\<lparr>written := written f @ xs\<rparr> else f)"

text \<open>
  Modelled from the spec: the class FileBlock (its header is not part of the sources at
  hand). A block owns a zero-initialised buffer of \<open>blockSize\<close> samples and the absolute
  index of its first sample. Releasing a block first flushes its whole buffer to the
  file; \<open>partialFlush\<close> writes the first \<open>count\<close> samples only, and the block that the
  teardown flushes in that way is not flushed again. A block reaches the file through
  the stream pointer; without a stream the flush dereferences a null pointer.
\<close>

record FileBlock =
  m_data :: "int16 list"
  m_offset :: uint64

definition new_FileBlock :: "int \<Rightarrow> uint64 \<Rightarrow> FileBlock" where
  "new_FileBlock blockSize off = \<lparr>m_data = replicate (nat blockSize) 0, m_offset = off\<rparr>"

definition getOffset :: "FileBlock \<Rightarrow> uint64" where
  "getOffset b = m_offset b"

definition flush :: "FileOutputStream option \<Rightarrow> FileBlock \<Rightarrow> error + FileOutputStream option" where
  "flush file b =
     (case file of
        None \<Rightarrow> Inl NullPointer
      | Some f \<Rightarrow> Inr (Some (stream_write f (m_data b))))"

definition partialFlush :: "FileOutputStream option \<Rightarrow> FileBlock \<Rightarrow> uint64 \<Rightarrow> error + FileOutputStream option" where
  "partialFlush file b count =
     (case file of
        None \<Rightarrow> Inl NullPointer
      | Some f \<Rightarrow>
          if length (m_data b) < unat count then Inl OutOfBounds
          else Inr (Some (stream_write f (take (unat count) (m_data b)))))"

text \<open>Flushing a run of blocks, oldest first, as the release of each of them does.\<close>

fun flush_all :: "FileOutputStream option \<Rightarrow> FileBlock list \<Rightarrow> error + FileOutputStream option" where
  "flush_all file [] = Inr file"
| "flush_all file (b # bs) =
     (case flush file b of Inl e \<Rightarrow> Inl e | Inr file' \<Rightarrow> flush_all file' bs)"

subsection \<open>The JUCE containers\<close>

text \<open>
  The containers are JUCE's, a library outside the sources at hand; the model follows
  their documented behaviour. \<^verbatim>\<open>Array<int>\<close>: reading outside the array yields the
  default value 0; \<open>set\<close> replaces an element in range, appends for an index at or past
  the end and ignores a negative index. \<^verbatim>\<open>OwnedArray\<close>: indexing outside the array
  yields a null pointer (\<open>None\<close> here); \<open>removeRange\<close> clips its range to the array, so
  that a count that is not positive removes nothing. \<open>jlimit\<close> and \<open>jmin\<close> are the
  library's clamp and minimum.
\<close>

definition Array_get :: "int list \<Rightarrow> int \<Rightarrow> int" where
  "Array_get xs i = (if 0 \<le> i \<and> i < int (length xs) then xs ! nat i else 0)"

definition Array_set :: "int list \<Rightarrow> int \<Rightarrow> int \<Rightarrow> int list" where
  "Array_set xs i v =
     (if i < 0 then xs
      else if i < int (length xs) then xs[nat i := v]
      else xs @ [v])"

definition OwnedArray_get :: "FileBlock list \<Rightarrow> int \<Rightarrow> FileBlock option" where
  "OwnedArray_get bs i = (if 0 \<le> i \<and> i < int (length bs) then Some (bs ! nat i) else None)"

definition jlimit :: "int \<Rightarrow> int \<Rightarrow> int \<Rightarrow> int" where
  "jlimit lo hi v = (if v < lo then lo else if hi < v then hi else v)"

definition jmin :: "int \<Rightarrow> int \<Rightarrow> int" where
  "jmin a b = (if b < a then b else a)"

subsection \<open>The window\<close>

record SequentialBlockFile =
  m_file :: "FileOutputStream option"
  m_nChannels :: int
  m_samplesPerBlock :: int
  m_blockSize :: int
  m_memBlocks :: "FileBlock list"
  m_currentBlock :: "int list"
  m_lastBlockFill :: uint64

definition constructor :: "int \<Rightarrow> int \<Rightarrow> SequentialBlockFile" where
  "constructor nChannels samplesPerBlock =
     \<lparr>m_file = None,
      m_nChannels = nChannels,
      m_samplesPerBlock = samplesPerBlock,
      m_blockSize = nChannels * samplesPerBlock,
      m_memBlocks = [],
      m_currentBlock = replicate (nat nChannels) (- 1),
      m_lastBlockFill = 0\<rparr>"

text \<open>
  \<open>openFile\<close>: the creation of the file and of its stream is the collaborator's; its
  outcome is the parameter \<open>stream\<close> (\<open>None\<close> when no stream could be created).
\<close>

definition openFile :: "SequentialBlockFile \<Rightarrow> FileOutputStream option \<Rightarrow> bool \<times> SequentialBlockFile" where
  "openFile s stream =
     (let s1 = s\<lparr>m_file := stream\<rparr> in
      if m_file s1 = None then (False, s1)
      else (True, s1\<lparr>m_memBlocks := m_memBlocks s1 @ [new_FileBlock (m_blockSize s1) 0]\<rparr>))"

text \<open>The three loops and the arithmetic of \<open>allocateBlocks\<close>.\<close>

definition findMinBlock :: "int \<Rightarrow> int list \<Rightarrow> uint32" where
  "findMinBlock nChannels cur =
     fold (\<lambda>i minBlock.
             if (word_of_int (Array_get cur (int i)) :: uint32) < minBlock
             then word_of_int (Array_get cur (int i)) else minBlock)
          [0..<nat nChannels] 0xFFFFFFFF"

definition shiftCursors :: "int \<Rightarrow> uint32 \<Rightarrow> int list \<Rightarrow> int list" where
  "shiftCursors nChannels minBlock cur =
     fold (\<lambda>i c. Array_set c (int i) (sint ((word_of_int (Array_get c (int i)) :: uint32) - minBlock)))
          [0..<nat nChannels] cur"

definition removeCount :: "FileBlock list \<Rightarrow> int \<Rightarrow> nat" where
  "removeCount bs numberToRemove =
     (let endIndex = jlimit 0 (int (length bs)) (0 + numberToRemove);
          startIndex = jlimit 0 (int (length bs)) 0
      in nat (endIndex - startIndex))"

fun addBlocks :: "int \<Rightarrow> uint64 \<Rightarrow> uint64 \<Rightarrow> nat \<Rightarrow> FileBlock list \<Rightarrow> FileBlock list" where
  "addBlocks blockSize spb lastOffset 0 bs = bs"
| "addBlocks blockSize spb lastOffset (Suc k) bs =
     addBlocks blockSize spb (lastOffset + spb) k (bs @ [new_FileBlock blockSize (lastOffset + spb)])"

definition newBlockCount :: "int \<Rightarrow> uint64 \<Rightarrow> uint64 \<Rightarrow> int \<Rightarrow> int" where
  "newBlockCount samplesPerBlock lastOffset startIndex numSamples =
     (let maxAddr = lastOffset + word_of_int samplesPerBlock - 1;
          newSpaceNeeded = word_of_int numSamples - (maxAddr - startIndex)
      in sint (ucast ((newSpaceNeeded + word_of_int samplesPerBlock - 1)
                        div (word_of_int samplesPerBlock :: uint64)) :: uint32))"

definition allocateBlocks :: "SequentialBlockFile \<Rightarrow> uint64 \<Rightarrow> int \<Rightarrow> error + SequentialBlockFile" where
  "allocateBlocks s startIndex numSamples =
     (let minBlock = findMinBlock (m_nChannels s) (m_currentBlock s);
          cur = shiftCursors (m_nChannels s) minBlock (m_currentBlock s);
          k = removeCount (m_memBlocks s) (sint minBlock)
      in case flush_all (m_file s) (take k (m_memBlocks s)) of
           Inl e \<Rightarrow> Inl e
         | Inr file \<Rightarrow>
             let bs = drop k (m_memBlocks s) in
             if bs = [] then Inl NullPointer
             else if (word_of_int (m_samplesPerBlock s) :: uint64) = 0 then Inl DivideByZero
             else
               let lastOffset = getOffset (last bs);
                   newBlocks = newBlockCount (m_samplesPerBlock s) lastOffset startIndex numSamples
               in Inr (s\<lparr>m_file := file,
                         m_currentBlock := cur,
                         m_memBlocks := addBlocks (m_blockSize s) (word_of_int (m_samplesPerBlock s))
                                          lastOffset (nat newBlocks) bs,
                         m_lastBlockFill := (if newBlocks > 0 then 0 else m_lastBlockFill s)\<rparr>))"

text \<open>The backward scan of \<open>writeChannel\<close>; \<open>k\<close> is one more than the loop's \<open>bIndex\<close>.\<close>

fun findBlock :: "FileBlock list \<Rightarrow> uint64 \<Rightarrow> nat \<Rightarrow> int" where
  "findBlock bs startPos 0 = - 1"
| "findBlock bs startPos (Suc k) =
     (if getOffset (bs ! k) \<le> startPos then int k else findBlock bs startPos k)"

text \<open>
  The inner copy loop, over the values \<open>is\<close> of \<open>i\<close>: sample \<open>i\<close> of the run goes to
  \<open>blockPtr + startMemPos + channel + i * nChannels\<close>; \<open>base\<close> is
  \<open>startMemPos + channel\<close>.
\<close>

fun copySamples :: "int \<Rightarrow> int \<Rightarrow> int16 list \<Rightarrow> nat list \<Rightarrow> int16 list \<Rightarrow> int
                      \<Rightarrow> error + (int16 list \<times> int)" where
  "copySamples base nChannels data [] blk dataIdx = Inr (blk, dataIdx)"
| "copySamples base nChannels data (i # is) blk dataIdx =
     (let pos = base + int i * nChannels in
      if \<not> (0 \<le> dataIdx \<and> dataIdx < int (length data)) then Inl OutOfBounds
      else if \<not> (0 \<le> pos \<and> pos < int (length blk)) then Inl OutOfBounds
      else copySamples base nChannels data is (blk[nat pos := data ! nat dataIdx]) (dataIdx + 1))"

record loop_state =
  blocks :: "FileBlock list"
  lastBlockFill :: uint64
  writtenSamples :: int
  startIdx :: int
  startMemPos :: int
  dataIdx :: int
  bIndex :: int

text \<open>One pass through the body of the write loop, and the loop.\<close>

definition writeIteration :: "int \<Rightarrow> int \<Rightarrow> int \<Rightarrow> int16 list \<Rightarrow> int \<Rightarrow> int \<Rightarrow> loop_state \<Rightarrow> error + loop_state" where
  "writeIteration nChannels samplesPerBlock channel data nSamples lastBlockIdx l =
     (case OwnedArray_get (blocks l) (bIndex l) of
        None \<Rightarrow> Inl NullPointer
      | Some b \<Rightarrow>
          let samplesToWrite = jmin (nSamples - writtenSamples l) (samplesPerBlock - startIdx l) in
          (case copySamples (startMemPos l + channel) nChannels data [0..<nat samplesToWrite]
                  (m_data b) (dataIdx l) of
             Inl e \<Rightarrow> Inl e
           | Inr (blk, dataIdx') \<Rightarrow>
               let samplePos = (word_of_int (startIdx l + samplesToWrite) :: uint64) in
               Inr \<lparr>blocks = (blocks l)[nat (bIndex l) := b\<lparr>m_data := blk\<rparr>],
                    lastBlockFill = (if bIndex l = lastBlockIdx \<and> samplePos > lastBlockFill l
                                     then samplePos else lastBlockFill l),
                    writtenSamples = writtenSamples l + samplesToWrite,
                    startIdx = 0,
                    startMemPos = 0,
                    dataIdx = dataIdx',
                    bIndex = bIndex l + 1\<rparr>))"

function writeLoop :: "int \<Rightarrow> int \<Rightarrow> int \<Rightarrow> int16 list \<Rightarrow> int \<Rightarrow> int \<Rightarrow> loop_state \<Rightarrow> error + loop_state" where
  "writeLoop nChannels samplesPerBlock channel data nSamples lastBlockIdx l =
     (if writtenSamples l < nSamples then
        (case writeIteration nChannels samplesPerBlock channel data nSamples lastBlockIdx l of
           Inl e \<Rightarrow> Inl e
         | Inr l' \<Rightarrow> writeLoop nChannels samplesPerBlock channel data nSamples lastBlockIdx l')
      else Inr l)"
  by pat_completeness auto
termination
  by (relation "measure (\<lambda>(nChannels, samplesPerBlock, channel, data, nSamples, lastBlockIdx, l).
                   nat (int (length (blocks l)) - bIndex l))")
     (auto simp: writeIteration_def OwnedArray_get_def Let_def split: option.splits sum.splits if_splits)

text \<open>
  \<open>writeChannel\<close>. Its first step makes room at the tail: \<open>allocateBlocks\<close> runs when
  there is no block or the last block ends before the end of the run. When the
  backward scan finds no block, the diagnostic reads the offset of the first block.
\<close>

definition ensureCapacity :: "SequentialBlockFile \<Rightarrow> uint64 \<Rightarrow> int \<Rightarrow> error + SequentialBlockFile" where
  "ensureCapacity s startPos nSamples =
     (let bIndex = int (length (m_memBlocks s)) - 1 in
      if bIndex < 0
         \<or> getOffset (m_memBlocks s ! nat bIndex) + word_of_int (m_samplesPerBlock s)
             < startPos + word_of_int nSamples
      then allocateBlocks s startPos nSamples else Inr s)"

text \<open>The rest of \<open>writeChannel\<close>: the scan, the copy and the cursor of the channel.\<close>

definition locateAndCopy :: "SequentialBlockFile \<Rightarrow> uint64 \<Rightarrow> int \<Rightarrow> int16 list \<Rightarrow> int
                              \<Rightarrow> error + (bool \<times> SequentialBlockFile)" where
  "locateAndCopy s1 startPos channel data nSamples =
     (let bIndex1 = findBlock (m_memBlocks s1) startPos (length (m_memBlocks s1)) in
      if bIndex1 < 0 then
        (if m_memBlocks s1 = [] then Inl NullPointer else Inr (False, s1))
      else
        let startIdx0 = sint (ucast (startPos - getOffset (m_memBlocks s1 ! nat bIndex1)) :: uint32);
            lastBlockIdx = int (length (m_memBlocks s1)) - 1
        in case writeLoop (m_nChannels s1) (m_samplesPerBlock s1) channel data nSamples lastBlockIdx
                  \<lparr>blocks = m_memBlocks s1,
                   lastBlockFill = m_lastBlockFill s1,
                   writtenSamples = 0,
                   startIdx = startIdx0,
                   startMemPos = startIdx0 * m_nChannels s1,
                   dataIdx = 0,
                   bIndex = bIndex1\<rparr> of
             Inl e \<Rightarrow> Inl e
           | Inr l \<Rightarrow>
               Inr (True, s1\<lparr>m_memBlocks := blocks l,
                             m_lastBlockFill := lastBlockFill l,
                             m_currentBlock := Array_set (m_currentBlock s1) channel (bIndex l - 1)\<rparr>))"

definition writeChannel :: "SequentialBlockFile \<Rightarrow> uint64 \<Rightarrow> int \<Rightarrow> int16 list \<Rightarrow> int
                              \<Rightarrow> error + (bool \<times> SequentialBlockFile)" where
  "writeChannel s startPos channel data nSamples =
     (if m_file s = None then Inr (False, s)
      else
        case ensureCapacity s startPos nSamples of
          Inl e \<Rightarrow> Inl e
        | Inr s1 \<Rightarrow> locateAndCopy s1 startPos channel data nSamples)"

text \<open>
  The destructor: all blocks but the last are removed from the front, each release
  flushing the block; \<open>finalBlock\<close> is what \<open>m_memBlocks[0]\<close> then yields, and that
  block is flushed up to the fill mark. The result is the stream as the teardown
  leaves it.
\<close>

definition finalBlock :: "SequentialBlockFile \<Rightarrow> FileBlock option" where
  "finalBlock s =
     (let n = int (length (m_memBlocks s)) in OwnedArray_get (drop (nat (n - 1)) (m_memBlocks s)) 0)"

definition destructor :: "SequentialBlockFile \<Rightarrow> error + FileOutputStream option" where
  "destructor s =
     (let n = int (length (m_memBlocks s)) in
      case flush_all (m_file s) (take (nat (n - 1)) (m_memBlocks s)) of
        Inl e \<Rightarrow> Inl e
      | Inr file \<Rightarrow>
          (case finalBlock s of
             None \<Rightarrow> Inl NullPointer
           | Some b \<Rightarrow> partialFlush file b (m_lastBlockFill s * word_of_int (m_nChannels s))))"

subsection \<open>Sequences of calls\<close>

text \<open>
  A caller's sequence of calls on one object. \<open>run\<close> stops at the first undefined
  step and otherwise returns the boolean results in order (\<open>allocateBlocks\<close> returns
  nothing; its entry is \<open>True\<close>) together with the final object.
\<close>

datatype operation =
    OpenFile "FileOutputStream option"
  | WriteChannel uint64 int "int16 list" int
  | AllocateBlocks uint64 int

fun step :: "SequentialBlockFile \<Rightarrow> operation \<Rightarrow> error + (bool \<times> SequentialBlockFile)" where
  "step s (OpenFile stream) = Inr (openFile s stream)"
| "step s (WriteChannel startPos channel data nSamples) = writeChannel s startPos channel data nSamples"
| "step s (AllocateBlocks startIndex numSamples) =
     (case allocateBlocks s startIndex numSamples of Inl e \<Rightarrow> Inl e | Inr s' \<Rightarrow> Inr (True, s'))"

fun run :: "SequentialBlockFile \<Rightarrow> operation list \<Rightarrow> error + (bool list \<times> SequentialBlockFile)" where
  "run s [] = Inr ([], s)"
| "run s (x # xs) =
     (case step s x of
        Inl e \<Rightarrow> Inl e
      | Inr (r, s') \<Rightarrow>
          (case run s' xs of Inl e \<Rightarrow> Inl e | Inr (rs, s'') \<Rightarrow> Inr (r # rs, s'')))"

definition empty_stream :: FileOutputStream where
  "empty_stream = \<lparr>written = [], healthy = True\<rparr>"


subsection \<open>Predicates on the window\<close>

text \<open>Consecutive resident blocks are \<open>samplesPerBlock\<close> apart, in the arithmetic of \<^verbatim>\<open>uint64\<close>.\<close>

definition contiguous :: "int \<Rightarrow> FileBlock list \<Rightarrow> bool" where
  "contiguous samplesPerBlock bs =
     (\<forall>i. Suc i < length bs \<longrightarrow>
          getOffset (bs ! Suc i) = getOffset (bs ! i) + word_of_int samplesPerBlock)"

fun successful_open :: "operation \<Rightarrow> bool" where
  "successful_open (OpenFile (Some f)) = True"
| "successful_open _ = False"

text \<open>The number of blocks that \<open>allocateBlocks\<close> removes from the front of the window.\<close>

definition evictCount :: "SequentialBlockFile \<Rightarrow> nat" where
  "evictCount s = removeCount (m_memBlocks s) (sint (findMinBlock (m_nChannels s) (m_currentBlock s)))"

text \<open>
  The invariant of the write loop: the channel, the sizes and the buffers are in range,
  \<open>dataIdx\<close> follows \<open>writtenSamples\<close>, and while samples remain the run starts inside the
  current block and the blocks from \<open>bIndex\<close> on have room for the rest of it.
\<close>

definition loop_inv :: "int \<Rightarrow> int \<Rightarrow> int \<Rightarrow> int16 list \<Rightarrow> int \<Rightarrow> loop_state \<Rightarrow> bool" where
  "loop_inv nChannels samplesPerBlock channel data nSamples l =
     (0 < nChannels \<and> 0 \<le> channel \<and> channel < nChannels \<and> 0 < samplesPerBlock
      \<and> (\<forall>b\<in>set (blocks l). length (m_data b) = nat (nChannels * samplesPerBlock))
      \<and> 0 \<le> writtenSamples l \<and> dataIdx l = writtenSamples l \<and> nSamples \<le> int (length data)
      \<and> 0 \<le> bIndex l
      \<and> (writtenSamples l < nSamples \<longrightarrow>
            0 \<le> startIdx l \<and> startIdx l < samplesPerBlock
            \<and> startMemPos l = startIdx l * nChannels
            \<and> startIdx l + (nSamples - writtenSamples l)
                 \<le> (int (length (blocks l)) - bIndex l) * samplesPerBlock))"

text \<open>
  Offsets that have not wrapped: there is a block, block \<open>i\<close> lies \<open>i * samplesPerBlock\<close>
  samples after block 0 as a number, and the end of the last block is below \<open>2^64\<close>.
\<close>

definition ascending :: "int \<Rightarrow> FileBlock list \<Rightarrow> bool" where
  "ascending samplesPerBlock bs =
     (bs \<noteq> []
      \<and> (\<forall>i<length bs. uint (getOffset (bs ! i)) = uint (getOffset (bs ! 0)) + int i * samplesPerBlock)
      \<and> uint (getOffset (last bs)) + samplesPerBlock < 2 ^ 64)"

text \<open>
  A well-formed window: positive sizes whose product is the block size and fits an
  \<^verbatim>\<open>int\<close>, every buffer of the block size, ascending offsets (\<open>blocks_ok\<close>); one
  cursor per channel, each a 32-bit value below the number of resident blocks
  (\<open>cursors_ok\<close>).
\<close>

definition blocks_ok :: "SequentialBlockFile \<Rightarrow> bool" where
  "blocks_ok s =
     (0 < m_nChannels s \<and> 0 < m_samplesPerBlock s
      \<and> m_blockSize s = m_nChannels s * m_samplesPerBlock s \<and> m_blockSize s < 2 ^ 31
      \<and> (\<forall>b\<in>set (m_memBlocks s). length (m_data b) = nat (m_blockSize s))
      \<and> ascending (m_samplesPerBlock s) (m_memBlocks s))"



text \<open>
  The contract of a call: a channel of the file, a run of \<open>nSamples \<ge> 0\<close> samples that
  the buffer holds, ending before sample \<open>2^31 * samplesPerBlock\<close> (the count of new
  blocks is an \<^verbatim>\<open>int\<close>).
\<close>

definition call_ok :: "SequentialBlockFile \<Rightarrow> uint64 \<Rightarrow> int \<Rightarrow> int16 list \<Rightarrow> int \<Rightarrow> bool" where
  "call_ok s startPos channel data nSamples =
     (0 \<le> channel \<and> channel < m_nChannels s
      \<and> 0 \<le> nSamples \<and> nSamples < 2 ^ 31 \<and> nSamples \<le> int (length data)
      \<and> uint startPos + nSamples < 2 ^ 31 * m_samplesPerBlock s)"


section \<open>Basic facts about the collaborators and the loops\<close>

declare writeLoop.simps [simp del]

lemma stream_write_Nil [simp]: "stream_write f [] = f"
  by (simp add: stream_write_def)

lemma stream_write_append: "stream_write (stream_write f xs) ys = stream_write f (xs @ ys)"
  by (simp add: stream_write_def)

lemma flush_all_Some:
  "flush_all (Some f) bs = Inr (Some (stream_write f (concat (map m_data bs))))"
proof (induction bs arbitrary: f)
  case Nil
  show ?case by simp
next
  case (Cons b bs)
  show ?case by (simp add: flush_def Cons.IH stream_write_append)
qed

lemma flush_all_None: "flush_all None bs = (if bs = [] then Inr None else Inl NullPointer)"
  by (cases bs) (simp_all add: flush_def)

lemma flush_all_Inr_cases:
  assumes "flush_all file bs = Inr file'"
  shows "(file = None \<and> bs = [] \<and> file' = None)
       \<or> (\<exists>f. file = Some f \<and> file' = Some (stream_write f (concat (map m_data bs))))"
proof (cases "file")
  case None
  with assms show ?thesis by (auto simp: flush_all_None split: if_splits)
next
  case (Some f)
  with assms show ?thesis by (auto simp: flush_all_Some)
qed

lemma addBlocks_append:
  "addBlocks blockSize spb lastOffset k bs =
     bs @ map (\<lambda>j. new_FileBlock blockSize (lastOffset + of_nat (Suc j) * spb)) [0..<k]"
proof (induction k arbitrary: lastOffset bs)
  case 0
  show ?case by simp
next
  case (Suc k)
  show ?case
    by (simp add: Suc.IH map_upt_Suc algebra_simps del: upt_Suc)
qed

lemma length_addBlocks [simp]: "length (addBlocks blockSize spb lastOffset k bs) = length bs + k"
  by (simp add: addBlocks_append)

lemma copySamples_length:
  "copySamples base nCh data is blk d = Inr (blk', d') \<Longrightarrow> length blk' = length blk"
  by (induction "is" arbitrary: blk d) (auto simp: Let_def split: if_splits)

lemma writeIteration_offsets:
  assumes "writeIteration nCh spb ch data n lastIdx l = Inr l'"
  shows "map getOffset (blocks l') = map getOffset (blocks l)"
    and "bIndex l' = bIndex l + 1"
    and "0 \<le> bIndex l" and "bIndex l < int (length (blocks l))"
proof -
  from assms obtain b where b: "OwnedArray_get (blocks l) (bIndex l) = Some b"
    by (auto simp: writeIteration_def split: option.splits)
  then have rng: "0 \<le> bIndex l" "bIndex l < int (length (blocks l))" and bb: "b = blocks l ! nat (bIndex l)"
    by (auto simp: OwnedArray_get_def split: if_splits)
  from assms b obtain blk where bl: "blocks l' = (blocks l)[nat (bIndex l) := b\<lparr>m_data := blk\<rparr>]"
    and bi: "bIndex l' = bIndex l + 1"
    by (auto simp: writeIteration_def Let_def split: sum.splits)
  show "map getOffset (blocks l') = map getOffset (blocks l)"
    unfolding bl using rng bb
    by (auto simp: list_eq_iff_nth_eq nth_list_update getOffset_def)
  show "bIndex l' = bIndex l + 1" by (fact bi)
  show "0 \<le> bIndex l" "bIndex l < int (length (blocks l))" by (fact rng)+
qed

lemma writeLoop_offsets:
  "writeLoop nCh spb ch data n lastIdx l = Inr l' \<Longrightarrow>
     map getOffset (blocks l') = map getOffset (blocks l)"
proof (induction nCh spb ch data n lastIdx l rule: writeLoop.induct)
  case (1 nCh spb ch data n lastIdx l)
  show ?case
  proof (cases "writtenSamples l < n")
    case False
    with "1.prems" show ?thesis by (simp add: writeLoop.simps)
  next
    case True
    from "1.prems" True obtain l1 where
      it: "writeIteration nCh spb ch data n lastIdx l = Inr l1" and
      r: "writeLoop nCh spb ch data n lastIdx l1 = Inr l'"
      by (subst (asm) writeLoop.simps) (auto split: sum.splits)
    from "1.IH"[OF True it r] writeIteration_offsets(1)[OF it] show ?thesis by simp
  qed
qed


section \<open>What \<open>allocateBlocks\<close> returns\<close>

lemma removeCount_eq:
  "removeCount bs m = (if m < 0 then 0 else min (nat m) (length bs))"
  by (auto simp: removeCount_def jlimit_def Let_def)

lemma removeCount_le: "removeCount bs m \<le> length bs"
  by (simp add: removeCount_eq)

lemma allocateBlocks_result:
  assumes "allocateBlocks s startIndex numSamples = Inr s'"
  shows "drop (evictCount s) (m_memBlocks s) \<noteq> []"
    and "m_memBlocks s' =
           addBlocks (m_blockSize s) (word_of_int (m_samplesPerBlock s)) (getOffset (last (m_memBlocks s)))
             (nat (newBlockCount (m_samplesPerBlock s) (getOffset (last (m_memBlocks s))) startIndex numSamples))
             (drop (evictCount s) (m_memBlocks s))"
    and "m_currentBlock s' = shiftCursors (m_nChannels s)
           (findMinBlock (m_nChannels s) (m_currentBlock s)) (m_currentBlock s)"
    and "flush_all (m_file s) (take (evictCount s) (m_memBlocks s)) = Inr (m_file s')"
    and "m_nChannels s' = m_nChannels s"
    and "m_samplesPerBlock s' = m_samplesPerBlock s"
    and "m_blockSize s' = m_blockSize s"
    and "m_lastBlockFill s' =
           (if 0 < newBlockCount (m_samplesPerBlock s) (getOffset (last (m_memBlocks s))) startIndex numSamples
            then 0 else m_lastBlockFill s)"
    and "(word_of_int (m_samplesPerBlock s) :: uint64) \<noteq> 0"
proof -
  let ?k = "evictCount s"
  from assms obtain fl where fl: "flush_all (m_file s) (take ?k (m_memBlocks s)) = Inr fl"
    by (auto simp: allocateBlocks_def evictCount_def Let_def split: sum.splits)
  from assms fl have ne: "drop ?k (m_memBlocks s) \<noteq> []"
    by (auto simp: allocateBlocks_def evictCount_def Let_def split: if_splits)
  from assms fl ne have nz: "(word_of_int (m_samplesPerBlock s) :: uint64) \<noteq> 0"
    by (auto simp: allocateBlocks_def evictCount_def Let_def split: if_splits)
  from ne have lst: "last (drop ?k (m_memBlocks s)) = last (m_memBlocks s)"
    by simp
  from assms fl ne nz have s': "s' = s\<lparr>m_file := fl,
         m_currentBlock := shiftCursors (m_nChannels s)
           (findMinBlock (m_nChannels s) (m_currentBlock s)) (m_currentBlock s),
         m_memBlocks := addBlocks (m_blockSize s) (word_of_int (m_samplesPerBlock s))
            (getOffset (last (m_memBlocks s)))
            (nat (newBlockCount (m_samplesPerBlock s) (getOffset (last (m_memBlocks s))) startIndex numSamples))
            (drop ?k (m_memBlocks s)),
         m_lastBlockFill :=
           (if 0 < newBlockCount (m_samplesPerBlock s) (getOffset (last (m_memBlocks s))) startIndex numSamples
            then 0 else m_lastBlockFill s)\<rparr>"
    unfolding allocateBlocks_def Let_def evictCount_def[symmetric]
    by (simp add: lst)
  show "drop ?k (m_memBlocks s) \<noteq> []" by (fact ne)
  show "(word_of_int (m_samplesPerBlock s) :: uint64) \<noteq> 0" by (fact nz)
  show "flush_all (m_file s) (take ?k (m_memBlocks s)) = Inr (m_file s')"
    using fl by (simp add: s')
  show "m_memBlocks s' =
           addBlocks (m_blockSize s) (word_of_int (m_samplesPerBlock s)) (getOffset (last (m_memBlocks s)))
             (nat (newBlockCount (m_samplesPerBlock s) (getOffset (last (m_memBlocks s))) startIndex numSamples))
             (drop ?k (m_memBlocks s))"
    by (simp add: s')
  show "m_currentBlock s' = shiftCursors (m_nChannels s)
           (findMinBlock (m_nChannels s) (m_currentBlock s)) (m_currentBlock s)"
    by (simp add: s')
  show "m_nChannels s' = m_nChannels s" "m_samplesPerBlock s' = m_samplesPerBlock s"
    "m_blockSize s' = m_blockSize s"
    by (simp_all add: s')
  show "m_lastBlockFill s' =
           (if 0 < newBlockCount (m_samplesPerBlock s) (getOffset (last (m_memBlocks s))) startIndex numSamples
            then 0 else m_lastBlockFill s)"
    by (simp add: s')
qed

lemma allocateBlocks_nonempty:
  "allocateBlocks s startIndex numSamples = Inr s' \<Longrightarrow> m_memBlocks s \<noteq> [] \<and> m_memBlocks s' \<noteq> []"
  using allocateBlocks_result(1,2)[of s startIndex numSamples s']
  by (auto simp: addBlocks_append)

section \<open>Offsets stay contiguous\<close>

lemma contiguous_Nil [simp]: "contiguous spb []"
  by (simp add: contiguous_def)

lemma contiguous_single [simp]: "contiguous spb [b]"
  by (simp add: contiguous_def)







lemma ensureCapacity_cases:
  assumes "ensureCapacity s startPos nSamples = Inr s1"
  shows "m_memBlocks s1 \<noteq> []" and "s1 = s \<or> allocateBlocks s startPos nSamples = Inr s1"
proof -
  show alt: "s1 = s \<or> allocateBlocks s startPos nSamples = Inr s1"
    using assms by (auto simp: ensureCapacity_def Let_def split: if_splits)
  show "m_memBlocks s1 \<noteq> []"
  proof (cases "allocateBlocks s startPos nSamples = Inr s1")
    case True
    then show ?thesis using allocateBlocks_nonempty by blast
  next
    case False
    with assms show ?thesis
      by (auto simp: ensureCapacity_def Let_def split: if_splits)
  qed
qed

lemma writeChannel_closed: "m_file s = None \<Longrightarrow> writeChannel s startPos channel data nSamples = Inr (False, s)"
  by (simp add: writeChannel_def)

lemma writeChannel_open_cases:
  assumes "writeChannel s startPos channel data nSamples = Inr (r, s')" and "m_file s \<noteq> None"
  obtains (stale) s1 where "ensureCapacity s startPos nSamples = Inr s1"
      "findBlock (m_memBlocks s1) startPos (length (m_memBlocks s1)) < 0" "\<not> r" "s' = s1"
  | (written) s1 l where "ensureCapacity s startPos nSamples = Inr s1"
      "\<not> findBlock (m_memBlocks s1) startPos (length (m_memBlocks s1)) < 0" "r"
      "writeLoop (m_nChannels s1) (m_samplesPerBlock s1) channel data nSamples (int (length (m_memBlocks s1)) - 1)
            \<lparr>blocks = m_memBlocks s1, lastBlockFill = m_lastBlockFill s1, writtenSamples = 0,
             startIdx = sint (ucast (startPos - getOffset (m_memBlocks s1 !
                 nat (findBlock (m_memBlocks s1) startPos (length (m_memBlocks s1))))) :: uint32),
             startMemPos = sint (ucast (startPos - getOffset (m_memBlocks s1 !
                 nat (findBlock (m_memBlocks s1) startPos (length (m_memBlocks s1))))) :: uint32) * m_nChannels s1,
             dataIdx = 0,
             bIndex = findBlock (m_memBlocks s1) startPos (length (m_memBlocks s1))\<rparr> = Inr l"
      "s' = s1\<lparr>m_memBlocks := blocks l, m_lastBlockFill := lastBlockFill l,
                  m_currentBlock := Array_set (m_currentBlock s1) channel (bIndex l - 1)\<rparr>"
proof -
  from assms obtain s1 where s1: "ensureCapacity s startPos nSamples = Inr s1"
    unfolding writeChannel_def locateAndCopy_def by (auto split: sum.splits)
  show thesis
  proof (cases "findBlock (m_memBlocks s1) startPos (length (m_memBlocks s1)) < 0")
    case True
    with assms s1 have "\<not> r \<and> s' = s1"
      unfolding writeChannel_def locateAndCopy_def Let_def by (auto split: if_splits)
    with s1 True show thesis using stale by blast
  next
    case False
    with assms s1 obtain l where
      "writeLoop (m_nChannels s1) (m_samplesPerBlock s1) channel data nSamples (int (length (m_memBlocks s1)) - 1)
            \<lparr>blocks = m_memBlocks s1, lastBlockFill = m_lastBlockFill s1, writtenSamples = 0,
             startIdx = sint (ucast (startPos - getOffset (m_memBlocks s1 !
                 nat (findBlock (m_memBlocks s1) startPos (length (m_memBlocks s1))))) :: uint32),
             startMemPos = sint (ucast (startPos - getOffset (m_memBlocks s1 !
                 nat (findBlock (m_memBlocks s1) startPos (length (m_memBlocks s1))))) :: uint32) * m_nChannels s1,
             dataIdx = 0,
             bIndex = findBlock (m_memBlocks s1) startPos (length (m_memBlocks s1))\<rparr> = Inr l"
      and "r \<and> s' = s1\<lparr>m_memBlocks := blocks l, m_lastBlockFill := lastBlockFill l,
                  m_currentBlock := Array_set (m_currentBlock s1) channel (bIndex l - 1)\<rparr>"
      unfolding writeChannel_def locateAndCopy_def Let_def by (auto split: sum.splits)
    with s1 False show thesis using written by blast
  qed
qed

lemma writeChannel_result:
  assumes "writeChannel s startPos channel data nSamples = Inr (r, s')"
  shows "m_file s = None \<and> \<not> r \<and> s' = s
       \<or> (\<exists>s1. m_file s \<noteq> None
            \<and> (s1 = s \<or> allocateBlocks s startPos nSamples = Inr s1)
            \<and> m_nChannels s' = m_nChannels s1
            \<and> m_samplesPerBlock s' = m_samplesPerBlock s1
            \<and> m_blockSize s' = m_blockSize s1
            \<and> m_file s' = m_file s1
            \<and> m_memBlocks s1 \<noteq> []
            \<and> map getOffset (m_memBlocks s') = map getOffset (m_memBlocks s1))"
proof (cases "m_file s = None")
  case True
  with assms show ?thesis by (simp add: writeChannel_def)
next
  case False
  from assms False show ?thesis
  proof (cases rule: writeChannel_open_cases)
    case (stale s1)
    with False ensureCapacity_cases[OF stale(1)] show ?thesis by auto
  next
    case (written s1 l)
    from writeLoop_offsets[OF written(4)]
    have "map getOffset (m_memBlocks s') = map getOffset (m_memBlocks s1)"
      by (simp add: written(5))
    with False ensureCapacity_cases[OF written(1)] written(5) show ?thesis by auto
  qed
qed


lemma writeChannel_nonempty:
  assumes "writeChannel s startPos channel data nSamples = Inr (r, s')"
  shows "(m_memBlocks s' = []) = (m_memBlocks s = [])"
proof -
  from writeChannel_result[OF assms] consider
    (closed) "s' = s"
  | (opened) s1 where "s1 = s \<or> allocateBlocks s startPos nSamples = Inr s1"
      "m_memBlocks s1 \<noteq> []"
      "map getOffset (m_memBlocks s') = map getOffset (m_memBlocks s1)"
    by blast
  then show ?thesis
  proof cases
  case closed
  then show ?thesis by simp
next
  case (opened s1)
  note a = opened(1) and ne = opened(2) and m = opened(3)
  from m ne have "m_memBlocks s' \<noteq> []" by auto
  moreover from a ne have "m_memBlocks s \<noteq> []"
    using allocateBlocks_nonempty by auto
  ultimately show ?thesis by simp
qed
qed


section \<open>Sequences of calls: contiguity and the resident blocks\<close>



lemma step_nonempty:
  assumes "step s x = Inr (r, s')"
  shows "(m_memBlocks s' \<noteq> []) = (m_memBlocks s \<noteq> [] \<or> successful_open x)"
proof (cases x)
  case (OpenFile stream)
  with assms show ?thesis by (cases stream) (auto simp: openFile_def Let_def)
next
  case (WriteChannel startPos channel data nSamples)
  with assms show ?thesis using writeChannel_nonempty by simp
next
  case (AllocateBlocks startIndex numSamples)
  with assms show ?thesis
    using allocateBlocks_nonempty by (auto split: sum.splits)
qed

lemma run_nonempty:
  assumes "run s xs = Inr (rs, s')"
  shows "(m_memBlocks s' \<noteq> []) = (m_memBlocks s \<noteq> [] \<or> (\<exists>x\<in>set xs. successful_open x))"
  using assms
proof (induction xs arbitrary: s rs)
  case Nil
  then show ?case by simp
next
  case (Cons x xs)
  from Cons.prems(1) obtain r s1 rs1 where
    st: "step s x = Inr (r, s1)" and rn: "run s1 xs = Inr (rs1, s')"
    by (auto split: sum.splits prod.splits)
  from Cons.IH[OF rn] step_nonempty[OF st] show ?case by auto
qed


lemma finalBlock_eq:
  "finalBlock s = (if m_memBlocks s = [] then None else Some (last (m_memBlocks s)))"
proof (cases "m_memBlocks s = []")
  case True
  then show ?thesis by (simp add: finalBlock_def OwnedArray_get_def)
next
  case False
  then have "nat (int (length (m_memBlocks s)) - 1) = length (m_memBlocks s) - 1"
    by (cases "m_memBlocks s") simp_all
  moreover have "drop (length (m_memBlocks s) - 1) (m_memBlocks s) = [last (m_memBlocks s)]"
    using False by (metis append_butlast_last_id append_eq_conv_conj length_butlast)
  ultimately show ?thesis using False
    by (simp add: finalBlock_def OwnedArray_get_def Let_def)
qed

lemma destructor_empty: "m_memBlocks s = [] \<Longrightarrow> destructor s = Inl NullPointer"
  by (simp add: destructor_def finalBlock_eq)

lemma destructor_Some:
  assumes "m_memBlocks s \<noteq> []" and "m_file s = Some f"
  shows "destructor s =
           (if length (m_data (last (m_memBlocks s))) < unat (m_lastBlockFill s * word_of_int (m_nChannels s))
            then Inl OutOfBounds
            else Inr (Some (stream_write f
                   (concat (map m_data (butlast (m_memBlocks s)))
                    @ take (unat (m_lastBlockFill s * word_of_int (m_nChannels s)))
                         (m_data (last (m_memBlocks s)))))))"
proof -
  from assms(1) have "nat (int (length (m_memBlocks s)) - 1) = length (m_memBlocks s) - 1"
    by (cases "m_memBlocks s") simp_all
  then have "take (nat (int (length (m_memBlocks s)) - 1)) (m_memBlocks s) = butlast (m_memBlocks s)"
    by (simp add: butlast_conv_take)
  then show ?thesis
    using assms
    by (simp add: destructor_def finalBlock_eq flush_all_Some partialFlush_def stream_write_append Let_def)
qed


section \<open>The inner copy loop\<close>

lemma copySamples_upt:
  assumes "0 < nCh" and "0 \<le> base" and "0 \<le> d"
      and "m \<le> k"
      and "m < k \<Longrightarrow> base + int (k - 1) * nCh < int (length blk)"
      and "d + int (k - m) \<le> int (length data)"
  shows "\<exists>blk'. copySamples base nCh data [m..<k] blk d = Inr (blk', d + int (k - m))
           \<and> length blk' = length blk
           \<and> (\<forall>i. m \<le> i \<and> i < k \<longrightarrow> blk' ! nat (base + int i * nCh) = data ! nat (d + int (i - m)))
           \<and> (\<forall>p. (\<forall>i. m \<le> i \<and> i < k \<longrightarrow> p \<noteq> nat (base + int i * nCh)) \<longrightarrow> blk' ! p = blk ! p)"
  using assms(3-6)
proof (induction "k - m" arbitrary: m blk d)
  case 0
  then have "m = k" by simp
  then show ?case by auto
next
  case (Suc n)
  then have mk: "m < k" by simp
  then have upt: "[m..<k] = m # [Suc m..<k]" by (simp add: upt_rec)
  let ?p = "base + int m * nCh"
  have p0: "0 \<le> ?p" using assms(1,2) by simp
  have "int m * nCh \<le> int (k - 1) * nCh"
    using mk assms(1) by (intro mult_right_mono) auto
  with Suc.prems(3)[OF mk] have p1: "?p < int (length blk)" by simp
  have d1: "d < int (length data)" using Suc.prems(4) mk by simp
  let ?blk1 = "blk[nat ?p := data ! nat d]"
  have step: "copySamples base nCh data [m..<k] blk d
            = copySamples base nCh data [Suc m..<k] ?blk1 (d + 1)"
    unfolding upt using p0 p1 d1 Suc.prems(1) by (simp add: Let_def)
  have n: "n = k - Suc m" using Suc.hyps(2) by simp
  have ih_prems: "0 \<le> d + 1" "Suc m \<le> k"
    "Suc m < k \<Longrightarrow> base + int (k - 1) * nCh < int (length ?blk1)"
    "d + 1 + int (k - Suc m) \<le> int (length data)"
    using Suc.prems mk by auto
  from Suc.hyps(1)[OF n ih_prems] obtain blk' where
    r: "copySamples base nCh data [Suc m..<k] ?blk1 (d + 1) = Inr (blk', d + 1 + int (k - Suc m))"
    and len: "length blk' = length ?blk1"
    and wr: "\<And>i. Suc m \<le> i \<Longrightarrow> i < k \<Longrightarrow> blk' ! nat (base + int i * nCh) = data ! nat (d + 1 + int (i - Suc m))"
    and fr: "\<And>p. (\<And>i. Suc m \<le> i \<Longrightarrow> i < k \<Longrightarrow> p \<noteq> nat (base + int i * nCh)) \<Longrightarrow> blk' ! p = ?blk1 ! p"
    by blast
  have dk: "d + 1 + int (k - Suc m) = d + int (k - m)" using mk by simp
  have distinct: "nat ?p \<noteq> nat (base + int i * nCh)" if "Suc m \<le> i" for i
  proof -
    from that have "int m < int i" by simp
    then have "int m * nCh < int i * nCh" using assms(1) by simp
    then have "?p < base + int i * nCh" by simp
    with p0 show ?thesis by simp
  qed
  have at_m: "blk' ! nat ?p = data ! nat d"
  proof -
    have "blk' ! nat ?p = ?blk1 ! nat ?p"
      by (rule fr) (use distinct in blast)
    also have "\<dots> = data ! nat d" using p0 p1 by simp
    finally show ?thesis .
  qed
  have wr_all: "blk' ! nat (base + int i * nCh) = data ! nat (d + int (i - m))" if "m \<le> i" "i < k" for i
  proof (cases "i = m")
    case True
    with at_m show ?thesis by simp
  next
    case False
    with that have "Suc m \<le> i" by simp
    from wr[OF this that(2)] have "blk' ! nat (base + int i * nCh) = data ! nat (d + 1 + int (i - Suc m))" .
    moreover have "d + 1 + int (i - Suc m) = d + int (i - m)" using \<open>Suc m \<le> i\<close> by simp
    ultimately show ?thesis by simp
  qed
  have fr_all: "blk' ! p = blk ! p" if "\<And>i. m \<le> i \<Longrightarrow> i < k \<Longrightarrow> p \<noteq> nat (base + int i * nCh)" for p
  proof -
    have "blk' ! p = ?blk1 ! p"
      by (rule fr) (use that in auto)
    moreover have "p \<noteq> nat ?p" using that[of m] mk by simp
    ultimately show ?thesis by simp
  qed
  show ?case
    unfolding step r dk using len wr_all fr_all by auto
qed

lemma copySamples_run:
  assumes "0 < nCh" and "0 \<le> base" and "0 \<le> d"
      and "0 < k \<Longrightarrow> base + (int k - 1) * nCh < int (length blk)"
      and "d + int k \<le> int (length data)"
  shows "\<exists>blk'. copySamples base nCh data [0..<k] blk d = Inr (blk', d + int k)
           \<and> length blk' = length blk
           \<and> (\<forall>i<k. blk' ! nat (base + int i * nCh) = data ! nat (d + int i))
           \<and> (\<forall>p. (\<forall>i<k. p \<noteq> nat (base + int i * nCh)) \<longrightarrow> blk' ! p = blk ! p)"
proof -
  have b: "0 < k \<Longrightarrow> base + int (k - 1) * nCh < int (length blk)"
    using assms(4) by (simp add: of_nat_diff)
  from copySamples_upt[OF assms(1,2,3) le0 b, of data] assms(5)
  show ?thesis by simp
qed


section \<open>The write loop\<close>

lemma writeIteration_spec:
  assumes inv: "loop_inv nCh spb ch data n l" and more: "writtenSamples l < n"
  defines "k \<equiv> jmin (n - writtenSamples l) (spb - startIdx l)"
  shows "\<exists>l1. writeIteration nCh spb ch data n lastIdx l = Inr l1
           \<and> loop_inv nCh spb ch data n l1
           \<and> writtenSamples l1 = writtenSamples l + k \<and> 0 < k
           \<and> startIdx l1 = 0 \<and> bIndex l1 = bIndex l + 1
           \<and> bIndex l < int (length (blocks l))
           \<and> length (blocks l1) = length (blocks l)
           \<and> (\<forall>i. i \<noteq> nat (bIndex l) \<longrightarrow> blocks l1 ! i = blocks l ! i)
           \<and> (\<forall>j. writtenSamples l \<le> j \<and> j < writtenSamples l + k \<longrightarrow>
                 m_data (blocks l1 ! nat (bIndex l)) ! nat ((startIdx l + (j - writtenSamples l)) * nCh + ch)
                   = data ! nat j)
           \<and> (\<forall>p. (\<forall>i. 0 \<le> i \<and> i < k \<longrightarrow> p \<noteq> nat ((startIdx l + i) * nCh + ch)) \<longrightarrow>
                 m_data (blocks l1 ! nat (bIndex l)) ! p = m_data (blocks l ! nat (bIndex l)) ! p)
           \<and> lastBlockFill l1 = (if bIndex l = lastIdx \<and> lastBlockFill l < word_of_int (startIdx l + k)
                                  then word_of_int (startIdx l + k) else lastBlockFill l)"
proof -
  let ?w = "writtenSamples l" and ?si = "startIdx l" and ?bi = "bIndex l"
  let ?len = "int (length (blocks l))"
  from inv have nCh: "0 < nCh" and ch: "0 \<le> ch" "ch < nCh" and spb: "0 < spb"
    and lens: "\<And>b. b \<in> set (blocks l) \<Longrightarrow> length (m_data b) = nat (nCh * spb)"
    and w0: "0 \<le> ?w" and di: "dataIdx l = ?w" and nd: "n \<le> int (length data)" and bi0: "0 \<le> ?bi"
    by (simp_all add: loop_inv_def)
  from inv more have si: "0 \<le> ?si" "?si < spb" and smp: "startMemPos l = ?si * nCh"
    and cov: "?si + (n - ?w) \<le> (?len - ?bi) * spb"
    by (simp_all add: loop_inv_def)
  have kpos: "0 < k" and k1: "k \<le> n - ?w" and k2: "k \<le> spb - ?si"
    using more si by (simp_all add: k_def jmin_def)
  have bi1: "?bi < ?len"
  proof (rule ccontr)
    assume "\<not> ?bi < ?len"
    then have "?len - ?bi \<le> 0" by simp
    then have "(?len - ?bi) * spb \<le> 0" using spb by (simp add: mult_le_0_iff)
    with cov more si show False by simp
  qed
  let ?b = "blocks l ! nat ?bi"
  have get: "OwnedArray_get (blocks l) ?bi = Some ?b"
    using bi0 bi1 by (simp add: OwnedArray_get_def)
  have bmem: "?b \<in> set (blocks l)" using bi0 bi1 by simp
  have blen: "int (length (m_data ?b)) = nCh * spb"
    using lens[OF bmem] nCh spb by simp
  let ?base = "startMemPos l + ch"
  have base0: "0 \<le> ?base" using smp si nCh ch by simp
  have top: "?base + (int (nat k) - 1) * nCh < int (length (m_data ?b))"
  proof -
    have "?si + k - 1 \<le> spb - 1" using k2 by simp
    then have "(?si + k - 1) * nCh \<le> (spb - 1) * nCh"
      using nCh by (intro mult_right_mono) simp_all
    then have "(?si + k - 1) * nCh + ch < spb * nCh"
      using ch by (simp add: algebra_simps)
    moreover have "?base + (int (nat k) - 1) * nCh = (?si + k - 1) * nCh + ch"
      using kpos smp by (simp add: algebra_simps)
    ultimately show ?thesis using blen by (simp add: mult.commute)
  qed
  have dfit: "dataIdx l + int (nat k) \<le> int (length data)"
    using di k1 nd kpos by simp
  from copySamples_run[OF nCh base0 _ top dfit] w0 di
  obtain blk where
    cp: "copySamples ?base nCh data [0..<nat k] (m_data ?b) (dataIdx l) = Inr (blk, dataIdx l + int (nat k))"
    and cl: "length blk = length (m_data ?b)"
    and cw: "\<And>i. i < nat k \<Longrightarrow> blk ! nat (?base + int i * nCh) = data ! nat (dataIdx l + int i)"
    and cf: "\<And>p. (\<And>i. i < nat k \<Longrightarrow> p \<noteq> nat (?base + int i * nCh)) \<Longrightarrow> blk ! p = m_data ?b ! p"
    by auto
  define l1 where "l1 = \<lparr>blocks = (blocks l)[nat ?bi := ?b\<lparr>m_data := blk\<rparr>],
       lastBlockFill = (if ?bi = lastIdx \<and> (word_of_int (?si + k) :: uint64) > lastBlockFill l
                        then word_of_int (?si + k) else lastBlockFill l),
       writtenSamples = ?w + k, startIdx = 0, startMemPos = 0,
       dataIdx = dataIdx l + int (nat k), bIndex = ?bi + 1\<rparr>"
  have it: "writeIteration nCh spb ch data n lastIdx l = Inr l1"
    unfolding writeIteration_def get k_def[symmetric] Let_def option.case cp l1_def
    by simp
  have nth_bi: "blocks l1 ! nat ?bi = ?b\<lparr>m_data := blk\<rparr>"
    using bi0 bi1 by (simp add: l1_def)
  have lens1: "length (m_data b) = nat (nCh * spb)" if "b \<in> set (blocks l1)" for b
  proof -
    from that have "b \<in> insert (?b\<lparr>m_data := blk\<rparr>) (set (blocks l))"
      using set_update_subset_insert[of "blocks l" "nat ?bi" "?b\<lparr>m_data := blk\<rparr>"]
      by (auto simp: l1_def)
    then show ?thesis using lens cl lens[OF bmem] by auto
  qed
  have cov1: "0 + (n - (?w + k)) \<le> (?len - (?bi + 1)) * spb" if "?w + k < n"
  proof -
    from that k1 have "k = spb - ?si" using k2 by (simp add: k_def jmin_def split: if_splits)
    then have "n - (?w + k) = ?si + (n - ?w) - spb" by simp
    also have "\<dots> \<le> (?len - ?bi) * spb - spb" using cov by simp
    also have "\<dots> = (?len - (?bi + 1)) * spb" by (simp add: algebra_simps)
    finally show ?thesis by simp
  qed
  have inv1: "loop_inv nCh spb ch data n l1"
    unfolding loop_inv_def
    using nCh ch spb lens1 w0 kpos di nd bi0 cov1 spb
    by (auto simp: l1_def)
  have written: "m_data (blocks l1 ! nat ?bi) ! nat ((?si + (j - ?w)) * nCh + ch) = data ! nat j"
    if "?w \<le> j" "j < ?w + k" for j
  proof -
    let ?i = "nat (j - ?w)"
    have i: "?i < nat k" using that kpos by simp
    have ii: "int ?i = j - ?w" using that by simp
    have e1: "?base + int ?i * nCh = (?si + (j - ?w)) * nCh + ch"
      unfolding ii using smp by (simp add: algebra_simps)
    have e2: "dataIdx l + int ?i = j" unfolding ii using di by simp
    from cw[OF i] have "blk ! nat ((?si + (j - ?w)) * nCh + ch) = data ! nat j"
      unfolding e1 e2 .
    then show ?thesis using nth_bi by simp
  qed
  have frame: "m_data (blocks l1 ! nat ?bi) ! p = m_data ?b ! p"
    if "\<And>i. 0 \<le> i \<Longrightarrow> i < k \<Longrightarrow> p \<noteq> nat ((?si + i) * nCh + ch)" for p
  proof -
    have "blk ! p = m_data ?b ! p"
    proof (rule cf)
      fix i assume "i < nat k"
      then have "0 \<le> int i" "int i < k" by simp_all
      from that[OF this] smp show "p \<noteq> nat (?base + int i * nCh)"
        by (simp add: algebra_simps)
    qed
    then show ?thesis using nth_bi by simp
  qed
  have others: "blocks l1 ! i = blocks l ! i" if "i \<noteq> nat ?bi" for i
    using that by (simp add: l1_def)
  have fill: "lastBlockFill l1 = (if ?bi = lastIdx \<and> lastBlockFill l < word_of_int (?si + k)
                                  then word_of_int (?si + k) else lastBlockFill l)"
    by (simp add: l1_def)
  show ?thesis
    using it inv1 kpos bi1 written frame others
    by (intro exI[of _ l1] conjI fill) (simp_all add: l1_def)
qed

lemma int_div_add_block: "0 < (b::int) \<Longrightarrow> (a + b) div b = a div b + 1"
  using div_add_self2[of b a] by simp

lemma int_mod_add_block: "(a + b) mod b = a mod (b::int)"
  by simp

lemma writeLoop_spec:
  assumes "loop_inv nCh spb ch data n l"
  shows "\<exists>l'. writeLoop nCh spb ch data n lastIdx l = Inr l'
           \<and> length (blocks l') = length (blocks l)
           \<and> (\<forall>i. i < nat (bIndex l) \<longrightarrow> blocks l' ! i = blocks l ! i)
           \<and> (\<forall>b\<in>set (blocks l'). length (m_data b) = nat (nCh * spb))
           \<and> bIndex l' = (if writtenSamples l < n
                           then bIndex l + (startIdx l + (n - writtenSamples l) - 1) div spb + 1
                           else bIndex l)
           \<and> (\<forall>j. writtenSamples l \<le> j \<and> j < n \<longrightarrow>
                 m_data (blocks l' ! nat (bIndex l + (startIdx l + (j - writtenSamples l)) div spb))
                   ! nat (((startIdx l + (j - writtenSamples l)) mod spb) * nCh + ch)
                 = data ! nat j)"
  using assms
proof (induction nCh spb ch data n lastIdx l rule: writeLoop.induct)
  case (1 nCh spb ch data n lastIdx l)
  let ?w = "writtenSamples l" and ?si = "startIdx l" and ?bi = "bIndex l"
  note inv = "1.prems"
  show ?case
  proof (cases "?w < n")
    case False
    have "writeLoop nCh spb ch data n lastIdx l = Inr l"
      using False by (simp add: writeLoop.simps)
    moreover have "\<forall>b\<in>set (blocks l). length (m_data b) = nat (nCh * spb)"
      using inv by (simp add: loop_inv_def)
    ultimately show ?thesis using False by auto
  next
    case True
    define k where "k = jmin (n - ?w) (spb - ?si)"
    from inv True have spb: "0 < spb" and si: "0 \<le> ?si" "?si < spb" and bi0: "0 \<le> ?bi"
      by (simp_all add: loop_inv_def)
    have k1: "k \<le> n - ?w" and k2: "k \<le> spb - ?si"
      by (simp_all add: k_def jmin_def)
    from writeIteration_spec[OF inv True, of lastIdx, folded k_def] obtain l1 where
      it: "writeIteration nCh spb ch data n lastIdx l = Inr l1"
      and inv1: "loop_inv nCh spb ch data n l1"
      and w1: "writtenSamples l1 = ?w + k" and kpos: "0 < k"
      and si1: "startIdx l1 = 0" and bi1: "bIndex l1 = ?bi + 1"
      and len1: "length (blocks l1) = length (blocks l)"
      and oth: "\<And>i. i \<noteq> nat ?bi \<Longrightarrow> blocks l1 ! i = blocks l ! i"
      and wr: "\<And>j. ?w \<le> j \<Longrightarrow> j < ?w + k \<Longrightarrow>
                 m_data (blocks l1 ! nat ?bi) ! nat ((?si + (j - ?w)) * nCh + ch) = data ! nat j"
      by blast
    from "1.IH"[OF True it inv1] obtain l' where
      r: "writeLoop nCh spb ch data n lastIdx l1 = Inr l'"
      and len': "length (blocks l') = length (blocks l1)"
      and fr': "\<And>i. i < nat (bIndex l1) \<Longrightarrow> blocks l' ! i = blocks l1 ! i"
      and lens': "\<forall>b\<in>set (blocks l'). length (m_data b) = nat (nCh * spb)"
      and bi': "bIndex l' = (if writtenSamples l1 < n
                           then bIndex l1 + (startIdx l1 + (n - writtenSamples l1) - 1) div spb + 1
                           else bIndex l1)"
      and wr': "\<And>j. writtenSamples l1 \<le> j \<Longrightarrow> j < n \<Longrightarrow>
                 m_data (blocks l' ! nat (bIndex l1 + (startIdx l1 + (j - writtenSamples l1)) div spb))
                   ! nat (((startIdx l1 + (j - writtenSamples l1)) mod spb) * nCh + ch)
                 = data ! nat j"
      by blast
    have run: "writeLoop nCh spb ch data n lastIdx l = Inr l'"
      using True it r by (subst writeLoop.simps) simp
    have frame: "blocks l' ! i = blocks l ! i" if "i < nat ?bi" for i
    proof -
      from that have "i < nat (bIndex l1)" using bi1 by simp
      from fr'[OF this] oth[of i] that show ?thesis by simp
    qed
    have keep: "blocks l' ! nat ?bi = blocks l1 ! nat ?bi"
      by (rule fr') (use bi1 bi0 in simp)
    have full: "k = spb - ?si" if "?w + k < n"
      using that by (simp add: k_def jmin_def split: if_splits)
    have bidx: "bIndex l' = ?bi + (?si + (n - ?w) - 1) div spb + 1"
    proof (cases "?w + k < n")
      case more: True
      have e: "?si + (n - ?w) - 1 = (n - (?w + k) - 1) + spb"
        using full[OF more] by simp
      have "(?si + (n - ?w) - 1) div spb = (n - (?w + k) - 1) div spb + 1"
        unfolding e using spb by (rule int_div_add_block)
      with more show ?thesis by (simp add: bi' w1 si1 bi1)
    next
      case last_pass: False
      with k1 have kn: "k = n - ?w" by simp
      have "0 \<le> ?si + (n - ?w) - 1" "?si + (n - ?w) - 1 < spb"
        using kn kpos si k2 by simp_all
      then have "(?si + (n - ?w) - 1) div spb = 0" by simp
      with last_pass show ?thesis by (simp add: bi' w1 bi1)
    qed
    have placed: "m_data (blocks l' ! nat (?bi + (?si + (j - ?w)) div spb))
                   ! nat (((?si + (j - ?w)) mod spb) * nCh + ch) = data ! nat j"
      if j: "?w \<le> j" "j < n" for j
    proof (cases "j < ?w + k")
      case here: True
      have q: "0 \<le> ?si + (j - ?w)" "?si + (j - ?w) < spb"
        using j here si k2 by simp_all
      then have "(?si + (j - ?w)) div spb = 0" "(?si + (j - ?w)) mod spb = ?si + (j - ?w)"
        by simp_all
      with wr[OF j(1) here] keep show ?thesis by simp
    next
      case later: False
      then have j1: "writtenSamples l1 \<le> j" using w1 by simp
      with j(2) have "?w + k < n" using w1 by simp
      from full[OF this] have q: "?si + (j - ?w) = (j - (?w + k)) + spb" by simp
      have d: "(?si + (j - ?w)) div spb = (j - (?w + k)) div spb + 1"
        unfolding q using spb by (rule int_div_add_block)
      have m: "(?si + (j - ?w)) mod spb = (j - (?w + k)) mod spb"
        unfolding q by (rule int_mod_add_block)
      from wr'[OF j1 j(2)] show ?thesis
        unfolding d m by (simp add: w1 si1 bi1 algebra_simps)
    qed
    show ?thesis
      using run len' len1 frame lens' bidx placed True
      by (intro exI[of _ l']) simp
  qed
qed


text \<open>The fill mark after the loop: only a run that reaches the last block moves it.\<close>

lemma writeLoop_fill:
  assumes "loop_inv nCh spb ch data n l" and "lastIdx = int (length (blocks l)) - 1"
      and "writeLoop nCh spb ch data n lastIdx l = Inr l'"
  shows "lastBlockFill l' =
           (if writtenSamples l < n \<and> bIndex l' - 1 = lastIdx
            then max (lastBlockFill l)
                     (word_of_int (startIdx l + (n - writtenSamples l) - (lastIdx - bIndex l) * spb))
            else lastBlockFill l)"
  using assms
proof (induction nCh spb ch data n lastIdx l rule: writeLoop.induct)
  case (1 nCh spb ch data n lastIdx l)
  let ?w = "writtenSamples l" and ?si = "startIdx l" and ?bi = "bIndex l"
  note inv = "1.prems"(1) and li = "1.prems"(2) and run = "1.prems"(3)
  show ?case
  proof (cases "?w < n")
    case False
    with run have "l' = l" by (simp add: writeLoop.simps)
    with False show ?thesis by simp
  next
    case True
    define k where "k = jmin (n - ?w) (spb - ?si)"
    from inv True have spb: "0 < spb" and si: "0 \<le> ?si" "?si < spb"
      and cov: "?si + (n - ?w) \<le> (int (length (blocks l)) - ?bi) * spb"
      by (simp_all add: loop_inv_def)
    have k1: "k \<le> n - ?w" and k2: "k \<le> spb - ?si"
      by (simp_all add: k_def jmin_def)
    from writeIteration_spec[OF inv True, of lastIdx, folded k_def] obtain l1 where
      it: "writeIteration nCh spb ch data n lastIdx l = Inr l1"
      and inv1: "loop_inv nCh spb ch data n l1"
      and w1: "writtenSamples l1 = ?w + k" and kpos: "0 < k"
      and si1: "startIdx l1 = 0" and bi1: "bIndex l1 = ?bi + 1"
      and bilt: "?bi < int (length (blocks l))"
      and len1: "length (blocks l1) = length (blocks l)"
      and fill1: "lastBlockFill l1 = (if ?bi = lastIdx \<and> lastBlockFill l < word_of_int (?si + k)
                                     then word_of_int (?si + k) else lastBlockFill l)"
      by blast
    from run True it have r: "writeLoop nCh spb ch data n lastIdx l1 = Inr l'"
      by (subst (asm) writeLoop.simps) simp
    have li1: "lastIdx = int (length (blocks l1)) - 1" using li len1 by simp
    note ih = "1.IH"[OF True it inv1 li1 r]
    show ?thesis
    proof (cases "?w + k < n")
      case more: True
      then have full: "k = spb - ?si" by (simp add: k_def jmin_def split: if_splits)
      have "spb < ?si + (n - ?w)" using more full by simp
      also note cov
      finally have "1 * spb < (int (length (blocks l)) - ?bi) * spb" by simp
      then have "1 < int (length (blocks l)) - ?bi" using spb by (simp only: mult_less_cancel_right)
      then have notlast: "?bi \<noteq> lastIdx" using li by simp
      with fill1 have f1: "lastBlockFill l1 = lastBlockFill l" by simp
      have e: "startIdx l1 + (n - writtenSamples l1) - (lastIdx - bIndex l1) * spb
             = ?si + (n - ?w) - (lastIdx - ?bi) * spb"
        unfolding si1 w1 bi1 full by (simp add: algebra_simps)
      from ih more True show ?thesis
        unfolding e f1 by (simp add: w1)
    next
      case last_pass: False
      with k1 have kn: "k = n - ?w" by simp
      then have "\<not> writtenSamples l1 < n" using w1 by simp
      with r have l': "l' = l1" by (simp add: writeLoop.simps)
      show ?thesis
      proof (cases "?bi = lastIdx")
        case atlast: True
        have e: "?si + (n - ?w) - (lastIdx - ?bi) * spb = ?si + k" using atlast kn by simp
        define E where "E = (word_of_int (?si + k) :: uint64)"
        from fill1 atlast have "lastBlockFill l1 = (if lastBlockFill l < E then E else lastBlockFill l)"
          by (simp only: E_def) simp
        then have m: "lastBlockFill l1 = max (lastBlockFill l) E" by (auto simp: max_def)
        have c: "?w < n \<and> bIndex l1 - 1 = lastIdx" using atlast bi1 True by simp
        show ?thesis unfolding l' e E_def[symmetric] using c m by simp
      next
        case notlast: False
        then have f: "lastBlockFill l1 = lastBlockFill l" using fill1 by (simp only: if_False simp_thms)
        have c: "\<not> (?w < n \<and> bIndex l1 - 1 = lastIdx)" using notlast bi1 by simp
        show ?thesis unfolding l' using c f by auto
      qed
    qed
  qed
qed


section \<open>Conversions between the unsigned and the signed values\<close>

lemma uint_word_of_int_64:
  assumes "0 \<le> x" and "x < 2 ^ 64"
  shows "uint (word_of_int x :: uint64) = x"
  using assms by (simp add: uint_word_of_int)

lemma uint_word_of_int_32:
  assumes "0 \<le> x" and "x < 2 ^ 32"
  shows "uint (word_of_int x :: uint32) = x"
  using assms by (simp add: uint_word_of_int)

lemma sint_word_of_int_32:
  assumes "- (2 ^ 31) \<le> x" and "x < 2 ^ 31"
  shows "sint (word_of_int x :: uint32) = x"
proof -
  have "signed_take_bit 31 x = x"
    using assms by (intro signed_take_bit_int_eq_self) simp_all
  then show ?thesis by (simp add: sint_sbintrunc')
qed

lemma sint_ucast_small:
  fixes q :: uint64
  assumes "uint q < 2 ^ 31"
  shows "sint (ucast q :: uint32) = uint q"
proof -
  have "- (2 ^ 31) \<le> (0::int)" by simp
  also have "0 \<le> uint q" by simp
  finally have "sint (word_of_int (uint q) :: uint32) = uint q"
    using assms by (rule sint_word_of_int_32)
  then show ?thesis by (simp only: ucast_eq)
qed

lemma uint_add_int:
  fixes a :: uint64
  assumes "0 \<le> uint a + x" and "uint a + x < 2 ^ 64"
  shows "uint (a + word_of_int x) = uint a + x"
proof -
  have "a + word_of_int x = word_of_int (uint a + x)" by simp
  then show ?thesis using assms by (simp only: uint_word_of_int_64)
qed

lemma uint_sub_le:
  fixes a b :: uint64
  assumes "uint b \<le> uint a"
  shows "uint (a - b) = uint a - uint b"
proof -
  have e: "a - b = word_of_int (uint a - uint b)" by simp
  have "uint a - uint b \<le> uint a" by simp
  also have "uint a < 2 ^ 64" using uint_lt2p[of a] by simp
  finally have hi: "uint a - uint b < 2 ^ 64" .
  have lo: "0 \<le> uint a - uint b" using assms by simp
  show ?thesis unfolding e using lo hi by (rule uint_word_of_int_64)
qed

lemma word_less_uint: "(a < b) = (uint a < uint b)" for a b :: uint64
  by (simp add: word_less_def)

lemma word_le_uint: "(a \<le> b) = (uint a \<le> uint b)" for a b :: uint64
  by (simp add: word_le_def)

lemma int_mult_div_le:
  assumes "0 < (b::int)"
  shows "b * (a div b) \<le> a"
proof -
  have "b * (a div b) = a - a mod b" by (simp add: minus_mod_eq_mult_div)
  moreover have "0 \<le> a mod b" using assms by simp
  ultimately show ?thesis by linarith
qed

lemma int_less_mult_div:
  assumes "0 < (b::int)"
  shows "a < b * (a div b) + b"
proof -
  have "b * (a div b) = a - a mod b" by (simp add: minus_mod_eq_mult_div)
  moreover have "a mod b < b" using assms by simp
  ultimately show ?thesis by linarith
qed

lemma int_div_less:
  assumes "0 < (b::int)" and "a < c * b"
  shows "a div b < c"
proof (rule ccontr)
  assume "\<not> a div b < c"
  then have "c \<le> a div b" by simp
  then have "b * c \<le> b * (a div b)"
    using assms(1) by (intro mult_left_mono) simp_all
  also have "\<dots> \<le> a" using assms(1) by (rule int_mult_div_le)
  finally show False using assms(2) by (simp add: mult.commute)
qed

lemma newBlockCount_eq:
  assumes spb: "0 < spb"
      and lo: "0 \<le> uint startIndex + n - uint lastOffset"
      and hi: "uint startIndex + n - uint lastOffset < 2 ^ 64"
      and cnt: "(uint startIndex + n - uint lastOffset) div spb < 2 ^ 31"
      and spb64: "spb < 2 ^ 64"
  shows "newBlockCount spb lastOffset startIndex n = (uint startIndex + n - uint lastOffset) div spb"
proof -
  let ?d = "uint startIndex + n - uint lastOffset"
  have num: "word_of_int n - (lastOffset + word_of_int spb - 1 - startIndex) + word_of_int spb - 1
           = (word_of_int ?d :: uint64)"
    by simp
  have un: "uint (word_of_int ?d :: uint64) = ?d"
    using lo hi by (rule uint_word_of_int_64)
  have us: "uint (word_of_int spb :: uint64) = spb"
    using spb spb64 by (intro uint_word_of_int_64) simp_all
  have q: "uint ((word_of_int ?d :: uint64) div word_of_int spb) = ?d div spb"
    by (simp only: uint_div un us)
  have "0 \<le> ?d div spb" using lo spb by (simp add: pos_imp_zdiv_nonneg_iff)
  with q cnt have "sint (ucast ((word_of_int ?d :: uint64) div word_of_int spb) :: uint32) = ?d div spb"
    by (simp only: sint_ucast_small)
  then show ?thesis
    unfolding newBlockCount_def Let_def num .
qed


section \<open>Ascending offsets\<close>

lemma ascending_nonempty: "ascending spb bs \<Longrightarrow> bs \<noteq> []"
  unfolding ascending_def by blast

lemma ascending_nth:
  "ascending spb bs \<Longrightarrow> i < length bs \<Longrightarrow>
     uint (getOffset (bs ! i)) = uint (getOffset (bs ! 0)) + int i * spb"
  unfolding ascending_def by blast

lemma ascending_last:
  assumes "ascending spb bs"
  shows "uint (getOffset (last bs)) = uint (getOffset (bs ! 0)) + (int (length bs) - 1) * spb"
proof -
  from assms have ne: "bs \<noteq> []" by (rule ascending_nonempty)
  then have "last bs = bs ! (length bs - 1)" by (rule last_conv_nth)
  moreover have "length bs - 1 < length bs" using ne by simp
  moreover have "int (length bs - 1) = int (length bs) - 1" using ne by (simp add: of_nat_diff Suc_leI)
  ultimately show ?thesis using ascending_nth[OF assms, of "length bs - 1"] by simp
qed

lemma ascending_end: "ascending spb bs \<Longrightarrow> uint (getOffset (last bs)) + spb < 2 ^ 64"
  unfolding ascending_def by blast

lemma ascending_mono:
  assumes "ascending spb bs" and "0 \<le> spb" and "i \<le> j" and "j < length bs"
  shows "uint (getOffset (bs ! i)) \<le> uint (getOffset (bs ! j))"
proof -
  have "int i * spb \<le> int j * spb"
    using assms(2,3) by (intro mult_right_mono) simp_all
  then show ?thesis
    using ascending_nth[OF assms(1), of i] ascending_nth[OF assms(1), of j] assms(3,4) by simp
qed

lemma ascending_contiguous:
  assumes "ascending spb bs"
  shows "contiguous spb bs"
  unfolding contiguous_def
proof (intro allI impI)
  fix i assume i: "Suc i < length bs"
  have "uint (getOffset (bs ! Suc i)) = uint (getOffset (bs ! i)) + spb"
    using ascending_nth[OF assms, of "Suc i"] ascending_nth[OF assms, of i] i
    by (simp add: algebra_simps)
  then have "word_of_int (uint (getOffset (bs ! Suc i))) = (word_of_int (uint (getOffset (bs ! i)) + spb) :: uint64)"
    by simp
  then show "getOffset (bs ! Suc i) = getOffset (bs ! i) + word_of_int spb"
    by simp
qed

lemma ascending_drop:
  assumes "ascending spb bs" and "k < length bs"
  shows "ascending spb (drop k bs)"
  unfolding ascending_def
proof (intro conjI allI impI)
  show "drop k bs \<noteq> []" using assms(2) by simp
  then show "uint (getOffset (last (drop k bs))) + spb < 2 ^ 64"
    using ascending_end[OF assms(1)] by simp
  fix i assume i: "i < length (drop k bs)"
  then have ki: "k + i < length bs" by simp
  have "uint (getOffset (bs ! (k + i))) = uint (getOffset (bs ! 0)) + int (k + i) * spb"
    using assms(1) ki by (rule ascending_nth)
  moreover have "uint (getOffset (bs ! k)) = uint (getOffset (bs ! 0)) + int k * spb"
    using assms by (rule ascending_nth)
  ultimately have "uint (getOffset (bs ! (k + i))) = uint (getOffset (bs ! k)) + int i * spb"
    by (simp add: algebra_simps)
  then show "uint (getOffset (drop k bs ! i)) = uint (getOffset (drop k bs ! 0)) + int i * spb"
    using ki assms(2) by simp
qed

lemma ascending_snoc:
  assumes asc: "ascending spb bs" and spb: "0 \<le> spb"
      and off: "getOffset b = getOffset (last bs) + word_of_int spb"
      and room: "uint (getOffset (last bs)) + 2 * spb < 2 ^ 64"
  shows "ascending spb (bs @ [b])"
    and "uint (getOffset b) = uint (getOffset (last bs)) + spb"
proof -
  from asc have ne: "bs \<noteq> []" by (rule ascending_nonempty)
  have "0 \<le> uint (getOffset (last bs)) + spb" using spb by simp
  moreover have "uint (getOffset (last bs)) + spb < 2 ^ 64" using asc by (rule ascending_end)
  ultimately show ub: "uint (getOffset b) = uint (getOffset (last bs)) + spb"
    unfolding off by (rule uint_add_int)
  show "ascending spb (bs @ [b])"
    unfolding ascending_def
  proof (intro conjI allI impI)
    show "bs @ [b] \<noteq> []" by simp
    show "uint (getOffset (last (bs @ [b]))) + spb < 2 ^ 64"
      using ub room by simp
    fix i assume i: "i < length (bs @ [b])"
    show "uint (getOffset ((bs @ [b]) ! i)) = uint (getOffset ((bs @ [b]) ! 0)) + int i * spb"
    proof (cases "i < length bs")
      case True
      with ascending_nth[OF asc True] ne show ?thesis by (simp add: nth_append)
    next
      case False
      with i have e: "i = length bs" by simp
      have "uint (getOffset b) = uint (getOffset (bs ! 0)) + int (length bs) * spb"
        using ub ascending_last[OF asc] by (simp add: algebra_simps)
      with e ne show ?thesis by (simp add: nth_append)
    qed
  qed
qed

lemma ascending_addBlocks:
  assumes "ascending spb bs" and "0 \<le> spb"
      and "uint (getOffset (last bs)) + (int k + 1) * spb < 2 ^ 64"
  shows "ascending spb (addBlocks blockSize (word_of_int spb) (getOffset (last bs)) k bs)
       \<and> uint (getOffset (last (addBlocks blockSize (word_of_int spb) (getOffset (last bs)) k bs)))
           = uint (getOffset (last bs)) + int k * spb"
  using assms
proof (induction k arbitrary: bs)
  case 0
  then show ?case by simp
next
  case (Suc k)
  define b where "b = new_FileBlock blockSize (getOffset (last bs) + word_of_int spb)"
  have off: "getOffset b = getOffset (last bs) + word_of_int spb"
    by (simp add: b_def new_FileBlock_def getOffset_def)
  have "0 \<le> int k * spb" using Suc.prems(2) by simp
  then have room: "uint (getOffset (last bs)) + 2 * spb < 2 ^ 64"
    using Suc.prems(3) by (simp add: algebra_simps)
  note sn = ascending_snoc[OF Suc.prems(1,2) off room]
  have l: "last (bs @ [b]) = b" by simp
  have r: "uint (getOffset (last (bs @ [b]))) + (int k + 1) * spb < 2 ^ 64"
    unfolding l sn(2) using Suc.prems(3) by (simp add: algebra_simps)
  have step: "addBlocks blockSize (word_of_int spb) (getOffset (last bs)) (Suc k) bs
            = addBlocks blockSize (word_of_int spb) (getOffset (last (bs @ [b]))) k (bs @ [b])"
    unfolding l off by (simp add: b_def)
  from Suc.IH[OF sn(1) Suc.prems(2) r] show ?case
    unfolding step l sn(2) by (simp add: algebra_simps)
qed


section \<open>The minimum over the cursors\<close>

lemma fold_min_word:
  fixes f :: "nat \<Rightarrow> uint32"
  defines "F \<equiv> \<lambda>is m0. fold (\<lambda>i m. if f i < m then f i else m) is m0"
  shows "F is m0 \<le> m0 \<and> (\<forall>i\<in>set is. F is m0 \<le> f i) \<and> (F is m0 = m0 \<or> (\<exists>i\<in>set is. F is m0 = f i))"
proof (induction "is" arbitrary: m0)
  case Nil
  show ?case by (simp add: F_def)
next
  case (Cons i "is")
  let ?m1 = "if f i < m0 then f i else m0"
  have step: "F (i # is) m0 = F is ?m1" by (simp add: F_def)
  have m1: "?m1 \<le> m0" "?m1 \<le> f i" "?m1 = m0 \<or> ?m1 = f i" by auto
  from Cons.IH[of ?m1] have a: "F is ?m1 \<le> ?m1" and b: "\<forall>j\<in>set is. F is ?m1 \<le> f j"
    and c: "F is ?m1 = ?m1 \<or> (\<exists>j\<in>set is. F is ?m1 = f j)"
    by blast+
  from a m1(1) have "F is ?m1 \<le> m0" by (rule order_trans)
  moreover from a m1(2) have "F is ?m1 \<le> f i" by (rule order_trans)
  moreover from c m1(3) have "F is ?m1 = m0 \<or> (\<exists>j\<in>set (i # is). F is ?m1 = f j)" by auto
  ultimately show ?case unfolding step using b by simp
qed

lemma findMinBlock_props:
  assumes "length cur = nat nCh"
  shows "\<forall>c\<in>set cur. findMinBlock nCh cur \<le> word_of_int c"
    and "findMinBlock nCh cur = 0xFFFFFFFF \<or> (\<exists>c\<in>set cur. findMinBlock nCh cur = word_of_int c)"
proof -
  let ?f = "\<lambda>i. (word_of_int (Array_get cur (int i)) :: uint32)"
  have fm: "findMinBlock nCh cur = fold (\<lambda>i m. if ?f i < m then ?f i else m) [0..<nat nCh] 0xFFFFFFFF"
    by (simp add: findMinBlock_def)
  note p = fold_min_word[of ?f "[0..<nat nCh]" "0xFFFFFFFF", folded fm]
  have get: "Array_get cur (int i) = cur ! i" if "i < nat nCh" for i
  proof -
    from that assms have "i < length cur" by simp
    then have "int i < int (length cur)" by (simp only: of_nat_less_iff)
    then show ?thesis by (simp add: Array_get_def)
  qed
  show "\<forall>c\<in>set cur. findMinBlock nCh cur \<le> word_of_int c"
  proof
    fix c assume "c \<in> set cur"
    then obtain i where i: "i < length cur" "cur ! i = c" by (auto simp: in_set_conv_nth)
    with assms have "i \<in> set [0..<nat nCh]" by simp
    with p have "findMinBlock nCh cur \<le> ?f i" by blast
    with i assms show "findMinBlock nCh cur \<le> word_of_int c" by (simp add: get)
  qed
  from p have "findMinBlock nCh cur = 0xFFFFFFFF \<or> (\<exists>i\<in>set [0..<nat nCh]. findMinBlock nCh cur = ?f i)"
    by blast
  then show "findMinBlock nCh cur = 0xFFFFFFFF \<or> (\<exists>c\<in>set cur. findMinBlock nCh cur = word_of_int c)"
  proof
    assume "findMinBlock nCh cur = 0xFFFFFFFF"
    then show ?thesis by simp
  next
    assume "\<exists>i\<in>set [0..<nat nCh]. findMinBlock nCh cur = ?f i"
    then obtain i where i: "i < nat nCh" "findMinBlock nCh cur = ?f i" by auto
    then have "cur ! i \<in> set cur" using assms by simp
    with i show ?thesis by (auto simp: get)
  qed
qed

lemma sint_small_32:
  fixes w :: uint32
  assumes "uint w < 2 ^ 31"
  shows "sint w = uint w"
proof -
  have "- (2 ^ 31) \<le> (0::int)" by simp
  also have "0 \<le> uint w" by simp
  finally have "sint (word_of_int (uint w) :: uint32) = uint w"
    using assms by (rule sint_word_of_int_32)
  then show ?thesis by simp
qed

text \<open>A cursor that is not negative holds back the eviction.\<close>

lemma evictCount_le_cursor:
  assumes len: "length (m_currentBlock s) = nat (m_nChannels s)"
      and c: "c \<in> set (m_currentBlock s)" and c0: "0 \<le> c" and c1: "c < 2 ^ 31"
  shows "int (evictCount s) \<le> c"
proof -
  let ?m = "findMinBlock (m_nChannels s) (m_currentBlock s)"
  from findMinBlock_props(1)[OF len] c have "?m \<le> word_of_int c" by blast
  then have "uint ?m \<le> uint (word_of_int c :: uint32)" by (simp add: word_le_def)
  also have "uint (word_of_int c :: uint32) = c"
    using c0 c1 by (intro uint_word_of_int_32) simp_all
  finally have le: "uint ?m \<le> c" .
  with c1 have "uint ?m < 2 ^ 31" by simp
  then have "sint ?m = uint ?m" by (rule sint_small_32)
  with le have "sint ?m \<le> c" "0 \<le> sint ?m" by simp_all
  then show ?thesis
    by (simp add: evictCount_def removeCount_eq)
qed



section \<open>Room at the tail\<close>

lemma trigger_uint:
  assumes "ascending spb bs" and "0 \<le> spb" and "0 \<le> n" and "uint startPos + n < 2 ^ 64"
  shows "(getOffset (bs ! nat (int (length bs) - 1)) + word_of_int spb < startPos + word_of_int n)
       = (uint (getOffset (last bs)) + spb < uint startPos + n)"
proof -
  from assms(1) have ne: "bs \<noteq> []" by (rule ascending_nonempty)
  then have "nat (int (length bs) - 1) = length bs - 1" by (cases bs) simp_all
  with ne have l: "bs ! nat (int (length bs) - 1) = last bs" by (simp add: last_conv_nth)
  have "0 \<le> uint (getOffset (last bs)) + spb" using assms(2) by simp
  then have a: "uint (getOffset (last bs) + word_of_int spb) = uint (getOffset (last bs)) + spb"
    using ascending_end[OF assms(1)] by (rule uint_add_int)
  have "0 \<le> uint startPos + n" using assms(3) by simp
  then have b: "uint (startPos + word_of_int n) = uint startPos + n"
    using assms(4) by (rule uint_add_int)
  show ?thesis unfolding l word_less_uint a b ..
qed

lemma allocateBlocks_ok:
  assumes bo: "blocks_ok s" and k: "evictCount s < length (m_memBlocks s)"
      and fl: "m_file s \<noteq> None"
      and n0: "0 \<le> n" and far: "uint startPos + n < 2 ^ 31 * m_samplesPerBlock s"
      and trig: "uint (getOffset (last (m_memBlocks s))) + m_samplesPerBlock s < uint startPos + n"
  shows "\<exists>s1. allocateBlocks s startPos n = Inr s1 \<and> blocks_ok s1 \<and> m_file s1 \<noteq> None
           \<and> m_nChannels s1 = m_nChannels s \<and> m_samplesPerBlock s1 = m_samplesPerBlock s
           \<and> uint startPos + n \<le> uint (getOffset (last (m_memBlocks s1))) + m_samplesPerBlock s1"
proof -
  let ?spb = "m_samplesPerBlock s" and ?bs = "m_memBlocks s"
  define L where "L = uint (getOffset (last ?bs))"
  define P where "P = uint startPos"
  have P0: "0 \<le> P" and L0: "0 \<le> L" by (simp_all add: P_def L_def)
  note far = far[folded P_def] and trig = trig[folded P_def L_def]
  from bo have nCh: "0 < m_nChannels s" and spb: "0 < ?spb"
    and bsz: "m_blockSize s = m_nChannels s * ?spb" and small: "m_blockSize s < 2 ^ 31"
    and lens: "\<forall>b\<in>set ?bs. length (m_data b) = nat (m_blockSize s)"
    and asc: "ascending ?spb ?bs"
    by (simp_all add: blocks_ok_def)
  from asc have ne: "?bs \<noteq> []" by (rule ascending_nonempty)
  have "?spb \<le> m_nChannels s * ?spb" using nCh spb by simp
  with bsz small have spb31: "?spb < 2 ^ 31" by simp
  then have spb64: "?spb < 2 ^ 64" by simp
  let ?k = "evictCount s"
  from fl obtain f where f: "m_file s = Some f" by auto
  have flush: "flush_all (m_file s) (take ?k ?bs) = Inr (Some (stream_write f (concat (map m_data (take ?k ?bs)))))"
    unfolding f by (rule flush_all_Some)
  have dne: "drop ?k ?bs \<noteq> []" using k by simp
  have nz: "(word_of_int ?spb :: uint64) \<noteq> 0"
  proof
    assume "(word_of_int ?spb :: uint64) = 0"
    then have "uint (word_of_int ?spb :: uint64) = 0" by simp
    moreover have "uint (word_of_int ?spb :: uint64) = ?spb"
      using spb spb64 by (intro uint_word_of_int_64) simp_all
    ultimately show False using spb by simp
  qed
  have ldrop: "last (drop ?k ?bs) = last ?bs" using dne by simp
  define d where "d = P + n - L"
  have far64: "P + n < 2 ^ 62"
  proof -
    have "2 ^ 31 * ?spb \<le> 2 ^ 31 * (2 ^ 31 :: int)"
      using spb31 by (intro mult_left_mono) simp_all
    with far show ?thesis by simp
  qed
  have d0: "0 \<le> d" using trig spb by (simp add: d_def)
  have dP: "d \<le> P + n" using L0 by (simp add: d_def)
  have d64: "d < 2 ^ 64" using far64 dP by simp
  have dq: "d div ?spb < 2 ^ 31"
  proof -
    note dP
    also have "P + n < 2 ^ 31 * ?spb" by (fact far)
    finally show ?thesis using spb by (intro int_div_less)
  qed
  define m where "m = d div ?spb"
  have cnt: "newBlockCount ?spb (getOffset (last ?bs)) startPos n = m"
    unfolding m_def d_def P_def L_def
    using spb d0[unfolded d_def P_def L_def] d64[unfolded d_def P_def L_def]
      dq[unfolded d_def P_def L_def] spb64
    by (rule newBlockCount_eq)
  have m1: "1 \<le> m"
  proof -
    have "?spb \<le> d" using trig by (simp add: d_def)
    then have "?spb div ?spb \<le> d div ?spb" by (rule zdiv_mono1) (fact spb)
    then show ?thesis using spb by (simp add: m_def)
  qed
  have mlo: "m * ?spb \<le> d"
    unfolding m_def using int_mult_div_le[OF spb, of d] by (simp add: mult.commute)
  have mhi: "d < (m + 1) * ?spb"
    unfolding m_def using int_less_mult_div[OF spb, of d] by (simp add: algebra_simps)
  define s1 where "s1 = s\<lparr>m_file := Some (stream_write f (concat (map m_data (take ?k ?bs)))),
       m_currentBlock := shiftCursors (m_nChannels s) (findMinBlock (m_nChannels s) (m_currentBlock s)) (m_currentBlock s),
       m_memBlocks := addBlocks (m_blockSize s) (word_of_int ?spb) (getOffset (last ?bs)) (nat m) (drop ?k ?bs),
       m_lastBlockFill := (if m > 0 then 0 else m_lastBlockFill s)\<rparr>"
  have run: "allocateBlocks s startPos n = Inr s1"
    unfolding allocateBlocks_def Let_def evictCount_def[symmetric] flush
    using dne nz by (simp add: ldrop cnt s1_def)
  have asc_d: "ascending ?spb (drop ?k ?bs)" using asc k by (rule ascending_drop)
  have "L + (m + 1) * ?spb = L + m * ?spb + ?spb" by (simp add: algebra_simps)
  also have "\<dots> \<le> L + d + ?spb" using mlo by simp
  also have "\<dots> = P + n + ?spb" by (simp add: d_def)
  also have "\<dots> < 2 ^ 62 + 2 ^ 31" using far64 spb31 by simp
  also have "\<dots> < (2 ^ 64 :: int)" by simp
  finally have "L + (m + 1) * ?spb < 2 ^ 64" .
  then have room: "uint (getOffset (last (drop ?k ?bs))) + (int (nat m) + 1) * ?spb < 2 ^ 64"
    using m1 by (simp add: ldrop L_def)
  from spb have spb0: "0 \<le> ?spb" by simp
  note ab = ascending_addBlocks[OF asc_d spb0 room, of "m_blockSize s", unfolded ldrop]
  have asc1: "ascending (m_samplesPerBlock s1) (m_memBlocks s1)"
    using ab by (simp add: s1_def)
  have last1: "uint (getOffset (last (m_memBlocks s1))) = L + m * ?spb"
    using ab m1 by (simp add: s1_def L_def)
  have lens1: "\<forall>b\<in>set (m_memBlocks s1). length (m_data b) = nat (m_blockSize s1)"
  proof
    fix b assume "b \<in> set (m_memBlocks s1)"
    then have "b \<in> set (drop ?k ?bs) \<or> (\<exists>off. b = new_FileBlock (m_blockSize s) off)"
      by (auto simp: s1_def addBlocks_append)
    then show "length (m_data b) = nat (m_blockSize s1)"
    proof
      assume "b \<in> set (drop ?k ?bs)"
      then have "b \<in> set ?bs" by (rule in_set_dropD)
      with lens show ?thesis by (simp add: s1_def)
    next
      assume "\<exists>off. b = new_FileBlock (m_blockSize s) off"
      then show ?thesis by (auto simp: new_FileBlock_def s1_def)
    qed
  qed
  have bo1: "blocks_ok s1"
    unfolding blocks_ok_def using nCh spb bsz small lens1 asc1 by (simp add: s1_def)
  have "P + n = L + d" by (simp add: d_def)
  also have "\<dots> \<le> L + (m + 1) * ?spb" using mhi by simp
  also have "\<dots> = L + m * ?spb + ?spb" by (simp add: algebra_simps)
  finally have cov: "uint startPos + n \<le> uint (getOffset (last (m_memBlocks s1))) + m_samplesPerBlock s1"
    unfolding last1 by (simp add: s1_def P_def)
  show ?thesis
    using run bo1 cov by (intro exI[of _ s1]) (simp add: s1_def)
qed

lemma ensureCapacity_ok:
  assumes bo: "blocks_ok s"
      and k: "uint (getOffset (last (m_memBlocks s))) + m_samplesPerBlock s < uint startPos + n
              \<Longrightarrow> evictCount s < length (m_memBlocks s)"
      and fl: "m_file s \<noteq> None"
      and n0: "0 \<le> n" and far: "uint startPos + n < 2 ^ 31 * m_samplesPerBlock s"
  shows "\<exists>s1. ensureCapacity s startPos n = Inr s1 \<and> blocks_ok s1 \<and> m_file s1 \<noteq> None
           \<and> m_nChannels s1 = m_nChannels s \<and> m_samplesPerBlock s1 = m_samplesPerBlock s
           \<and> uint startPos + n \<le> uint (getOffset (last (m_memBlocks s1))) + m_samplesPerBlock s1"
proof -
  let ?spb = "m_samplesPerBlock s" and ?bs = "m_memBlocks s"
  from bo have nCh: "0 < m_nChannels s" and spb: "0 < ?spb"
    and bsz: "m_blockSize s = m_nChannels s * ?spb" and small: "m_blockSize s < 2 ^ 31"
    and asc: "ascending ?spb ?bs"
    by (simp_all add: blocks_ok_def)
  from asc have ne: "?bs \<noteq> []" by (rule ascending_nonempty)
  have "?spb \<le> m_nChannels s * ?spb" using nCh spb by simp
  with bsz small have spb31: "?spb < 2 ^ 31" by simp
  have "2 ^ 31 * ?spb \<le> 2 ^ 31 * (2 ^ 31 :: int)"
    using spb31 by (intro mult_left_mono) simp_all
  with far have far64: "uint startPos + n < 2 ^ 64" by simp
  from spb have spb0: "0 \<le> ?spb" by simp
  note tr = trigger_uint[OF asc spb0 n0 far64]
  have nneg: "\<not> int (length ?bs) - 1 < 0" using ne by (cases ?bs) simp_all
  show ?thesis
  proof (cases "uint (getOffset (last ?bs)) + ?spb < uint startPos + n")
    case True
    then have "ensureCapacity s startPos n = allocateBlocks s startPos n"
      unfolding ensureCapacity_def Let_def tr by simp
    with allocateBlocks_ok[OF bo k[OF True] fl n0 far True] show ?thesis by simp
  next
    case False
    then have "ensureCapacity s startPos n = Inr s"
      unfolding ensureCapacity_def Let_def tr using nneg by simp
    with False bo fl show ?thesis by simp
  qed
qed


lemma ensureCapacity_evicts_less:
  assumes bo: "blocks_ok s" and en: "ensureCapacity s startPos n = Inr s1"
      and n0: "0 \<le> n" and far: "uint startPos + n < 2 ^ 64"
      and trig: "uint (getOffset (last (m_memBlocks s))) + m_samplesPerBlock s < uint startPos + n"
  shows "evictCount s < length (m_memBlocks s)"
proof -
  from bo have spb: "0 < m_samplesPerBlock s" and asc: "ascending (m_samplesPerBlock s) (m_memBlocks s)"
    by (simp_all add: blocks_ok_def)
  from spb have spb0: "0 \<le> m_samplesPerBlock s" by simp
  note tr = trigger_uint[OF asc spb0 n0 far]
  from trig have "ensureCapacity s startPos n = allocateBlocks s startPos n"
    unfolding ensureCapacity_def Let_def tr by simp
  with en have "allocateBlocks s startPos n = Inr s1" by simp
  from allocateBlocks_result(1)[OF this] show ?thesis by simp
qed


section \<open>The backward scan\<close>


lemma findBlock_neg_iff:
  "(findBlock bs startPos k < 0) = (\<forall>i<k. startPos < getOffset (bs ! i))"
proof (induction k)
  case 0
  show ?case by simp
next
  case (Suc k)
  show ?case
  proof (cases "getOffset (bs ! k) \<le> startPos")
    case True
    then have "\<not> startPos < getOffset (bs ! k)" by simp
    then have "\<not> (\<forall>i<Suc k. startPos < getOffset (bs ! i))" by blast
    with True show ?thesis by simp
  next
    case False
    then have "startPos < getOffset (bs ! k)" by simp
    then have "(\<forall>i<Suc k. startPos < getOffset (bs ! i)) = (\<forall>i<k. startPos < getOffset (bs ! i))"
      by (auto simp: less_Suc_eq)
    with False Suc.IH show ?thesis by simp
  qed
qed

lemma findBlock_found:
  assumes "findBlock bs startPos k = int i"
  shows "i < k \<and> getOffset (bs ! i) \<le> startPos \<and> (\<forall>j. i < j \<and> j < k \<longrightarrow> startPos < getOffset (bs ! j))"
  using assms
proof (induction k)
  case 0
  then show ?case by simp
next
  case (Suc k)
  show ?case
  proof (cases "getOffset (bs ! k) \<le> startPos")
    case True
    with Suc.prems have "i = k" by simp
    with True show ?thesis by auto
  next
    case False
    with Suc.prems have "findBlock bs startPos k = int i" by simp
    from Suc.IH[OF this] False show ?thesis by (auto simp: less_Suc_eq)
  qed
qed

section \<open>A call of \<open>writeChannel\<close> under its contract\<close>





section \<open>The fill mark after a write\<close>

lemma int_div_eq_iff:
  assumes "0 < (b::int)" and "a < (m + 1) * b"
  shows "(a div b = m) = (m * b \<le> a)"
proof
  assume "a div b = m"
  with int_mult_div_le[OF assms(1), of a] show "m * b \<le> a" by (simp add: mult.commute)
next
  assume le: "m * b \<le> a"
  have up: "a div b < m + 1" using assms by (rule int_div_less)
  have "m \<le> a div b"
  proof (rule ccontr)
    assume "\<not> m \<le> a div b"
    then have "a div b + 1 \<le> m" by simp
    then have "(a div b + 1) * b \<le> m * b" using assms(1) by (intro mult_right_mono) simp_all
    moreover have "a < (a div b + 1) * b"
      using int_less_mult_div[OF assms(1), of a] by (simp add: algebra_simps)
    ultimately show False using le by simp
  qed
  with up show "a div b = m" by simp
qed

lemma initial_loop_state:
  assumes bo1: "blocks_ok s1" and ch: "0 \<le> channel" "channel < m_nChannels s1"
      and n0: "0 \<le> n" and nd: "n \<le> int (length data)"
      and cov: "uint startPos + n \<le> uint (getOffset (last (m_memBlocks s1))) + m_samplesPerBlock s1"
      and fi: "findBlock (m_memBlocks s1) startPos (length (m_memBlocks s1)) = int i"
  shows "loop_inv (m_nChannels s1) (m_samplesPerBlock s1) channel data n
           \<lparr>blocks = m_memBlocks s1, lastBlockFill = m_lastBlockFill s1, writtenSamples = 0,
            startIdx = sint (ucast (startPos - getOffset (m_memBlocks s1 ! i)) :: uint32),
            startMemPos = sint (ucast (startPos - getOffset (m_memBlocks s1 ! i)) :: uint32) * m_nChannels s1,
            dataIdx = 0, bIndex = int i\<rparr>"
    and "0 < n \<Longrightarrow> sint (ucast (startPos - getOffset (m_memBlocks s1 ! i)) :: uint32)
                    = uint startPos - uint (getOffset (m_memBlocks s1 ! i))"
    and "i < length (m_memBlocks s1)"
    and "uint (getOffset (last (m_memBlocks s1)))
           = uint (getOffset (m_memBlocks s1 ! i)) + (int (length (m_memBlocks s1)) - 1 - int i) * m_samplesPerBlock s1"
proof -
  let ?bs = "m_memBlocks s1" and ?spb = "m_samplesPerBlock s1" and ?nCh = "m_nChannels s1"
  from bo1 have nCh: "0 < ?nCh" and spb: "0 < ?spb"
    and bsz: "m_blockSize s1 = ?nCh * ?spb" and small: "m_blockSize s1 < 2 ^ 31"
    and lens: "\<forall>b\<in>set ?bs. length (m_data b) = nat (m_blockSize s1)"
    and asc: "ascending ?spb ?bs"
    by (simp_all add: blocks_ok_def)
  have "?spb \<le> ?nCh * ?spb" using nCh spb by simp
  with bsz small have spb31: "?spb < 2 ^ 31" by simp
  from findBlock_found[OF fi] have i: "i < length ?bs" and le: "getOffset (?bs ! i) \<le> startPos"
    and gt: "\<And>j. i < j \<Longrightarrow> j < length ?bs \<Longrightarrow> startPos < getOffset (?bs ! j)"
    by blast+
  show "i < length ?bs" by (fact i)
  define P where "P = uint startPos"
  define off where "off = (\<lambda>j. uint (getOffset (?bs ! j)))"
  have off_nth: "off j = off 0 + int j * ?spb" if "j < length ?bs" for j
    unfolding off_def using asc that by (rule ascending_nth)
  have off_last: "uint (getOffset (last ?bs)) = off 0 + (int (length ?bs) - 1) * ?spb"
    unfolding off_def using asc by (rule ascending_last)
  show "uint (getOffset (last ?bs)) = uint (getOffset (?bs ! i)) + (int (length ?bs) - 1 - int i) * ?spb"
    using off_last off_nth[OF i] by (simp add: off_def algebra_simps)
  have leP: "off i \<le> P" using le by (simp add: word_le_uint off_def P_def)
  define q0 where "q0 = P - off i"
  have q00: "0 \<le> q0" using leP by (simp add: q0_def)
  have usub: "uint (startPos - getOffset (?bs ! i)) = q0"
    unfolding q0_def P_def off_def using leP[unfolded P_def off_def] by (rule uint_sub_le)
  have covP: "P + n \<le> off 0 + int (length ?bs) * ?spb"
    using cov off_last by (simp add: P_def algebra_simps)
  have room: "q0 + n \<le> (int (length ?bs) - int i) * ?spb"
    using covP off_nth[OF i] by (simp add: q0_def algebra_simps)
  have q0lt: "q0 < ?spb" if "0 < n"
  proof (cases "Suc i < length ?bs")
    case True
    from gt[OF _ True] have "P < off (Suc i)" by (simp add: word_less_uint off_def P_def)
    with off_nth[OF True] off_nth[OF i] show ?thesis by (simp add: q0_def algebra_simps)
  next
    case False
    with i have "int (length ?bs) - int i = 1" by simp
    with room that show ?thesis by simp
  qed
  define si where "si = sint (ucast (startPos - getOffset (?bs ! i)) :: uint32)"
  have si: "si = q0" if "0 < n"
  proof -
    from q0lt[OF that] spb31 have "uint (startPos - getOffset (?bs ! i)) < 2 ^ 31"
      unfolding usub by simp
    then show ?thesis unfolding si_def usub[symmetric] by (rule sint_ucast_small)
  qed
  show "0 < n \<Longrightarrow> sint (ucast (startPos - getOffset (?bs ! i)) :: uint32)
                    = uint startPos - uint (getOffset (?bs ! i))"
    using si unfolding si_def q0_def P_def off_def by simp
  have lens0: "\<forall>b\<in>set ?bs. length (m_data b) = nat (?nCh * ?spb)"
    using lens bsz by simp
  show "loop_inv ?nCh ?spb channel data n
           \<lparr>blocks = ?bs, lastBlockFill = m_lastBlockFill s1, writtenSamples = 0,
            startIdx = sint (ucast (startPos - getOffset (?bs ! i)) :: uint32),
            startMemPos = sint (ucast (startPos - getOffset (?bs ! i)) :: uint32) * ?nCh,
            dataIdx = 0, bIndex = int i\<rparr>"
    unfolding loop_inv_def si_def[symmetric]
    using nCh ch spb lens0 nd si q00 q0lt room
    by auto
qed

lemma call_ok_far:
  assumes "blocks_ok s" and "call_ok s startPos channel data n"
  shows "uint startPos + n < 2 ^ 64"
proof -
  from assms(1) have spb: "0 < m_samplesPerBlock s"
    and small: "m_blockSize s < 2 ^ 31" and bsz: "m_blockSize s = m_nChannels s * m_samplesPerBlock s"
    and nCh: "0 < m_nChannels s"
    by (simp_all add: blocks_ok_def)
  have "m_samplesPerBlock s \<le> m_nChannels s * m_samplesPerBlock s" using nCh spb by simp
  with bsz small have "m_samplesPerBlock s < 2 ^ 31" by simp
  then have "2 ^ 31 * m_samplesPerBlock s \<le> 2 ^ 31 * (2 ^ 31 :: int)"
    by (intro mult_left_mono) simp_all
  moreover from assms(2) have "uint startPos + n < 2 ^ 31 * m_samplesPerBlock s"
    by (simp add: call_ok_def)
  ultimately show ?thesis by simp
qed

lemma writeChannel_fill:
  assumes bo: "blocks_ok s" and call: "call_ok s startPos channel data n"
      and en: "ensureCapacity s startPos n = Inr s1"
      and w: "writeChannel s startPos channel data n = Inr (True, s')"
  shows "m_lastBlockFill s' =
           (if 0 < n \<and> uint (getOffset (last (m_memBlocks s'))) < uint startPos + n
            then max (m_lastBlockFill s1)
                     (word_of_int (uint startPos + n - uint (getOffset (last (m_memBlocks s')))))
            else m_lastBlockFill s1)"
proof -
  have fl: "m_file s \<noteq> None"
  proof
    assume "m_file s = None"
    then have "writeChannel s startPos channel data n = Inr (False, s)" by (rule writeChannel_closed)
    with w show False by simp
  qed
  from call have ch: "0 \<le> channel" "channel < m_nChannels s" and n0: "0 \<le> n"
    and nd: "n \<le> int (length data)" and far: "uint startPos + n < 2 ^ 31 * m_samplesPerBlock s"
    by (simp_all add: call_ok_def)
  note far64 = call_ok_far[OF bo call]
  have k: "evictCount s < length (m_memBlocks s)"
    if "uint (getOffset (last (m_memBlocks s))) + m_samplesPerBlock s < uint startPos + n"
    using bo en n0 far64 that by (rule ensureCapacity_evicts_less)
  from ensureCapacity_ok[OF bo k fl n0 far] en have bo1: "blocks_ok s1"
    and nCh1: "m_nChannels s1 = m_nChannels s" and spb1: "m_samplesPerBlock s1 = m_samplesPerBlock s"
    and cov: "uint startPos + n \<le> uint (getOffset (last (m_memBlocks s1))) + m_samplesPerBlock s1"
    by auto
  let ?bs = "m_memBlocks s1" and ?spb = "m_samplesPerBlock s1" and ?nCh = "m_nChannels s1"
  let ?f = "findBlock ?bs startPos (length ?bs)"
  from bo1 have spb: "0 < ?spb" and asc: "ascending ?spb ?bs" by (simp_all add: blocks_ok_def)
  from asc have ne: "?bs \<noteq> []" by (rule ascending_nonempty)
  from w fl obtain l where nf: "\<not> ?f < 0"
    and run0: "writeLoop ?nCh ?spb channel data n (int (length ?bs) - 1)
            \<lparr>blocks = ?bs, lastBlockFill = m_lastBlockFill s1, writtenSamples = 0,
             startIdx = sint (ucast (startPos - getOffset (?bs ! nat ?f)) :: uint32),
             startMemPos = sint (ucast (startPos - getOffset (?bs ! nat ?f)) :: uint32) * ?nCh,
             dataIdx = 0, bIndex = ?f\<rparr> = Inr l"
    and s': "s' = s1\<lparr>m_memBlocks := blocks l, m_lastBlockFill := lastBlockFill l,
                  m_currentBlock := Array_set (m_currentBlock s1) channel (bIndex l - 1)\<rparr>"
    using en by (cases rule: writeChannel_open_cases) auto
  from nf obtain i where fi: "?f = int i" by (metis nonneg_int_cases not_less)
  define l0 where "l0 = \<lparr>blocks = ?bs, lastBlockFill = m_lastBlockFill s1, writtenSamples = 0,
            startIdx = sint (ucast (startPos - getOffset (?bs ! i)) :: uint32),
            startMemPos = sint (ucast (startPos - getOffset (?bs ! i)) :: uint32) * ?nCh,
            dataIdx = 0, bIndex = int i\<rparr>"
  from run0 have run: "writeLoop ?nCh ?spb channel data n (int (length ?bs) - 1) l0 = Inr l"
    unfolding fi nat_int l0_def .
  note ils = initial_loop_state[OF bo1 ch[folded nCh1] n0 nd cov fi]
  have inv: "loop_inv ?nCh ?spb channel data n l0" using ils(1) by (simp add: l0_def)
  have li: "int (length ?bs) - 1 = int (length (blocks l0)) - 1" by (simp add: l0_def)
  from writeLoop_fill[OF inv li run]
  have fill: "lastBlockFill l =
           (if 0 < n \<and> bIndex l - 1 = int (length ?bs) - 1
            then max (m_lastBlockFill s1)
                     (word_of_int (startIdx l0 + n - (int (length ?bs) - 1 - int i) * ?spb))
            else m_lastBlockFill s1)"
    by (simp add: l0_def)
  from writeLoop_spec[OF inv, of "int (length ?bs) - 1"] run
  have bi: "bIndex l = (if 0 < n then int i + (startIdx l0 + n - 1) div ?spb + 1 else int i)"
    by (auto simp: l0_def)
  have offs: "map getOffset (blocks l) = map getOffset ?bs"
    using writeLoop_offsets[OF run] by (simp add: l0_def)
  then have "blocks l \<noteq> []" using ne by auto
  then have "getOffset (last (blocks l)) = last (map getOffset (blocks l))" by (simp add: last_map)
  also have "\<dots> = getOffset (last ?bs)" unfolding offs using ne by (simp add: last_map)
  finally have lastoff: "getOffset (last (m_memBlocks s')) = getOffset (last ?bs)" by (simp add: s')
  define L where "L = uint (getOffset (last ?bs))"
  define P where "P = uint startPos"
  define Oi where "Oi = uint (getOffset (?bs ! i))"
  define m where "m = int (length ?bs) - 1 - int i"
  have Lm: "L = Oi + m * ?spb" using ils(4) by (simp add: L_def Oi_def m_def)
  show ?thesis
  proof (cases "0 < n")
    case False
    with fill show ?thesis by (simp add: s')
  next
    case True
    from ils(2)[OF True] have si: "startIdx l0 = P - Oi" by (simp add: l0_def P_def Oi_def)
    have covm: "P - Oi + n - 1 < (m + 1) * ?spb"
      using cov Lm by (simp add: P_def L_def[symmetric] algebra_simps)
    from bi True have "bIndex l - 1 = int i + (P - Oi + n - 1) div ?spb"
      by (simp add: si)
    then have "(bIndex l - 1 = int (length ?bs) - 1) = ((P - Oi + n - 1) div ?spb = m)"
      unfolding m_def by linarith
    also have "\<dots> = (m * ?spb \<le> P - Oi + n - 1)"
      using spb covm by (rule int_div_eq_iff)
    also have "\<dots> = (L < P + n)" unfolding Lm by auto
    finally have c: "(bIndex l - 1 = int (length ?bs) - 1) = (L < P + n)" .
    have v: "startIdx l0 + n - (int (length ?bs) - 1 - int i) * ?spb = P + n - L"
      unfolding si Lm m_def by simp
    from fill True show ?thesis
      unfolding c v lastoff P_def L_def by (simp add: s')
  qed
qed


section \<open>The scenario of two channels and blocks of four samples\<close>

text \<open>
  C4. With two channels and four samples per block, after a successful open, channel 0
  writes 1,2,3,4 at position 0 and channel 1 writes 9,8,7,6 at position 0: block 0 holds
  the interleaved 1,9,2,8,3,7,4,6. Channel 0 then writes 5 at position 4: a block at
  offset 4 is appended and the cursor of channel 1 stays 0. A further write of channel 1
  at position 0 succeeds, block 0 still being resident.
\<close>

theorem scenario_two_channels:
  "run (constructor 2 4)
     [OpenFile (Some empty_stream), WriteChannel 0 0 [1, 2, 3, 4] 4, WriteChannel 0 1 [9, 8, 7, 6] 4]
   = Inr ([True, True, True],
          \<lparr>m_file = Some empty_stream, m_nChannels = 2, m_samplesPerBlock = 4, m_blockSize = 8,
           m_memBlocks = [\<lparr>m_data = [1, 9, 2, 8, 3, 7, 4, 6], m_offset = 0\<rparr>],
           m_currentBlock = [0, 0], m_lastBlockFill = 4\<rparr>)
   \<and> run (constructor 2 4)
     [OpenFile (Some empty_stream), WriteChannel 0 0 [1, 2, 3, 4] 4, WriteChannel 0 1 [9, 8, 7, 6] 4,
      WriteChannel 4 0 [5] 1]
   = Inr ([True, True, True, True],
          \<lparr>m_file = Some empty_stream, m_nChannels = 2, m_samplesPerBlock = 4, m_blockSize = 8,
           m_memBlocks = [\<lparr>m_data = [1, 9, 2, 8, 3, 7, 4, 6], m_offset = 0\<rparr>,
                          \<lparr>m_data = [5, 0, 0, 0, 0, 0, 0, 0], m_offset = 4\<rparr>],
           m_currentBlock = [1, 0], m_lastBlockFill = 1\<rparr>)
   \<and> run (constructor 2 4)
     [OpenFile (Some empty_stream), WriteChannel 0 0 [1, 2, 3, 4] 4, WriteChannel 0 1 [9, 8, 7, 6] 4,
      WriteChannel 4 0 [5] 1, WriteChannel 0 1 [9, 8, 7, 6] 4]
   = Inr ([True, True, True, True, True],
          \<lparr>m_file = Some empty_stream, m_nChannels = 2, m_samplesPerBlock = 4, m_blockSize = 8,
           m_memBlocks = [\<lparr>m_data = [1, 9, 2, 8, 3, 7, 4, 6], m_offset = 0\<rparr>,
                          \<lparr>m_data = [5, 0, 0, 0, 0, 0, 0, 0], m_offset = 4\<rparr>],
           m_currentBlock = [1, 0], m_lastBlockFill = 1\<rparr>)"
  by code_simp

section \<open>Offset contiguity\<close>





section \<open>Teardown\<close>

text \<open>
  C10. The destructor reads the first block of what its removal loop leaves. After a
  sequence of calls on a constructed object in which \<open>openFile\<close> succeeded at least once
  the window is not empty, the access yields the last resident block, and with a stream
  at hand the teardown does not dereference a null pointer. Without a successful
  \<open>openFile\<close> the window is empty, the access yields no block and the teardown
  dereferences a null pointer.
\<close>

theorem teardown_final_block_access:
  assumes "run (constructor nChannels samplesPerBlock) xs = Inr (rs, s)"
  shows "((\<exists>x\<in>set xs. successful_open x) \<longrightarrow>
            m_memBlocks s \<noteq> [] \<and> finalBlock s = Some (last (m_memBlocks s))
            \<and> (m_file s \<noteq> None \<longrightarrow> destructor s \<noteq> Inl NullPointer))
       \<and> (\<not> (\<exists>x\<in>set xs. successful_open x) \<longrightarrow>
            m_memBlocks s = [] \<and> finalBlock s = None \<and> destructor s = Inl NullPointer)"
proof -
  have e: "m_memBlocks (constructor nChannels samplesPerBlock) = []"
    by (simp add: constructor_def)
  from run_nonempty[OF assms] e
  have iff: "(m_memBlocks s \<noteq> []) = (\<exists>x\<in>set xs. successful_open x)"
    by simp
  have "destructor s \<noteq> Inl NullPointer" if "m_memBlocks s \<noteq> []" "m_file s \<noteq> None"
    using that destructor_Some[of s] by (auto split: if_splits)
  with iff show ?thesis
    by (auto simp: finalBlock_eq destructor_empty)
qed

theorem teardown_final_block_access_witness:
  "run (constructor 2 4) [OpenFile (Some empty_stream)]
   = Inr ([True],
          \<lparr>m_file = Some empty_stream, m_nChannels = 2, m_samplesPerBlock = 4, m_blockSize = 8,
           m_memBlocks = [\<lparr>m_data = [0, 0, 0, 0, 0, 0, 0, 0], m_offset = 0\<rparr>],
           m_currentBlock = [- 1, - 1], m_lastBlockFill = 0\<rparr>)
   \<and> finalBlock \<lparr>m_file = Some empty_stream, m_nChannels = 2, m_samplesPerBlock = 4, m_blockSize = 8,
           m_memBlocks = [\<lparr>m_data = [0, 0, 0, 0, 0, 0, 0, 0], m_offset = 0\<rparr>],
           m_currentBlock = [- 1, - 1], m_lastBlockFill = 0\<rparr>
       = Some \<lparr>m_data = [0, 0, 0, 0, 0, 0, 0, 0], m_offset = 0\<rparr>
   \<and> run (constructor 2 4) [OpenFile None, WriteChannel 0 0 [1] 1] = Inr ([False, False], constructor 2 4)
   \<and> destructor (constructor 2 4) = Inl NullPointer"
proof -
  let ?s = "\<lparr>m_file = Some empty_stream, m_nChannels = 2, m_samplesPerBlock = 4, m_blockSize = 8,
           m_memBlocks = [\<lparr>m_data = [0, 0, 0, 0, 0, 0, 0, 0], m_offset = 0\<rparr>],
           m_currentBlock = [- 1, - 1], m_lastBlockFill = 0\<rparr>"
  have r1: "run (constructor 2 4) [OpenFile (Some empty_stream)] = Inr ([True], ?s)"
    by code_simp
  have r2: "run (constructor 2 4) [OpenFile None, WriteChannel 0 0 [1] 1] = Inr ([False, False], constructor 2 4)"
    by code_simp
  from teardown_final_block_access[OF r1] have "finalBlock ?s = Some (last (m_memBlocks ?s))"
    by simp
  moreover from teardown_final_block_access[OF r2] have "destructor (constructor 2 4) = Inl NullPointer"
    by simp
  ultimately show ?thesis using r1 r2 by simp
qed


text \<open>
  C6. When the fill mark of the last resident block is \<open>k\<close>, below \<open>samplesPerBlock\<close>,
  the teardown writes every earlier resident block in full and in order, and then
  exactly the first \<open>k\<close> sample rows of the last block, that is \<open>k * nChannels\<close> samples.
  The mark is recorded by the writes: after a successful \<open>writeChannel\<close> whose run reaches
  into the last resident block, it is the larger of the mark before the copy (\<open>0\<close> when
  the call appended blocks) and the number of rows up to the end of the run; a run that
  ends before the last block leaves it.
\<close>

theorem teardown_trims_final_block:
  "(m_file s = Some f \<and> healthy f
      \<and> m_memBlocks s \<noteq> []
      \<and> m_lastBlockFill s = of_nat k \<and> int k < m_samplesPerBlock s
      \<and> 0 \<le> m_nChannels s \<and> m_nChannels s * m_samplesPerBlock s < 2 ^ 31
      \<and> length (m_data (last (m_memBlocks s))) = nat (m_nChannels s * m_samplesPerBlock s)
    \<longrightarrow> (\<exists>f'. destructor s = Inr (Some f')
            \<and> written f' = written f @ concat (map m_data (butlast (m_memBlocks s)))
                              @ take (k * nat (m_nChannels s)) (m_data (last (m_memBlocks s)))
            \<and> length (take (k * nat (m_nChannels s)) (m_data (last (m_memBlocks s))))
                = k * nat (m_nChannels s)))
   \<and> (\<forall>s0 s1 startPos channel data nSamples.
         blocks_ok s0 \<and> call_ok s0 startPos channel data nSamples
         \<and> ensureCapacity s0 startPos nSamples = Inr s1
         \<and> writeChannel s0 startPos channel data nSamples = Inr (True, s)
         \<longrightarrow> m_lastBlockFill s =
               (if 0 < nSamples \<and> uint (getOffset (last (m_memBlocks s))) < uint startPos + nSamples
                then max (m_lastBlockFill s1)
                         (word_of_int (uint startPos + nSamples - uint (getOffset (last (m_memBlocks s)))))
                else m_lastBlockFill s1))"
proof (intro conjI allI impI)
  fix s0 s1 startPos channel data nSamples
  assume "blocks_ok s0 \<and> call_ok s0 startPos channel data nSamples
         \<and> ensureCapacity s0 startPos nSamples = Inr s1
         \<and> writeChannel s0 startPos channel data nSamples = Inr (True, s)"
  then show "m_lastBlockFill s =
               (if 0 < nSamples \<and> uint (getOffset (last (m_memBlocks s))) < uint startPos + nSamples
                then max (m_lastBlockFill s1)
                         (word_of_int (uint startPos + nSamples - uint (getOffset (last (m_memBlocks s)))))
                else m_lastBlockFill s1)"
    using writeChannel_fill by blast
next
  assume a: "m_file s = Some f \<and> healthy f
      \<and> m_memBlocks s \<noteq> []
      \<and> m_lastBlockFill s = of_nat k \<and> int k < m_samplesPerBlock s
      \<and> 0 \<le> m_nChannels s \<and> m_nChannels s * m_samplesPerBlock s < 2 ^ 31
      \<and> length (m_data (last (m_memBlocks s))) = nat (m_nChannels s * m_samplesPerBlock s)"
  then have fl: "m_file s = Some f" and hf: "healthy f" and ne: "m_memBlocks s \<noteq> []"
    and mk: "m_lastBlockFill s = of_nat k" and klt: "int k < m_samplesPerBlock s"
    and nCh0: "0 \<le> m_nChannels s" and small: "m_nChannels s * m_samplesPerBlock s < 2 ^ 31"
    and len: "length (m_data (last (m_memBlocks s))) = nat (m_nChannels s * m_samplesPerBlock s)"
    by simp_all
  let ?c = "nat (m_nChannels s)"
  have le: "k * ?c \<le> nat (m_nChannels s * m_samplesPerBlock s)"
  proof -
    from klt have "k \<le> nat (m_samplesPerBlock s)" by simp
    then have "k * ?c \<le> nat (m_samplesPerBlock s) * ?c" by (rule mult_le_mono1)
    also have "\<dots> = nat (m_nChannels s * m_samplesPerBlock s)"
      using klt nCh0 by (simp add: nat_mult_distrib mult.commute)
    finally show ?thesis .
  qed
  have "nat (m_nChannels s * m_samplesPerBlock s) < 2 ^ 31"
    using small by (simp add: nat_less_iff)
  with le have lt: "k * ?c < 2 ^ 64" by simp
  have "(word_of_int (m_nChannels s) :: uint64) = of_nat ?c"
    using nCh0 by (rule word_of_int_nat)
  then have "(of_nat (k * ?c) :: uint64) = m_lastBlockFill s * word_of_int (m_nChannels s)"
    by (simp only: mk of_nat_mult)
  then have u: "unat (m_lastBlockFill s * word_of_int (m_nChannels s)) = k * ?c"
    by (rule of_nat_inverse) (use lt in simp)
  from le len have fits: "\<not> length (m_data (last (m_memBlocks s))) < k * ?c"
    by simp
  have "destructor s = Inr (Some (stream_write f
           (concat (map m_data (butlast (m_memBlocks s)))
            @ take (k * ?c) (m_data (last (m_memBlocks s))))))"
    using destructor_Some[OF ne fl] u fits by simp
  moreover have "length (take (k * ?c) (m_data (last (m_memBlocks s)))) = k * ?c"
    using fits by simp
  ultimately show "\<exists>f'. destructor s = Inr (Some f')
            \<and> written f' = written f @ concat (map m_data (butlast (m_memBlocks s)))
                              @ take (k * nat (m_nChannels s)) (m_data (last (m_memBlocks s)))
            \<and> length (take (k * nat (m_nChannels s)) (m_data (last (m_memBlocks s))))
                = k * nat (m_nChannels s)"
    using hf by (simp add: stream_write_def)
qed

text \<open>
  After the writes of the scenario the second block holds one sample row; the teardown
  writes the eight samples of block 0 and two samples of block 1.
\<close>

theorem teardown_trims_final_block_witness:
  "run (constructor 2 4) [OpenFile (Some empty_stream), WriteChannel 0 0 [1, 2, 3, 4] 4, WriteChannel 0 1 [9, 8, 7, 6] 4, WriteChannel 4 0 [5] 1]
   = Inr ([True, True, True, True],
    \<lparr>m_file = Some empty_stream, m_nChannels = 2, m_samplesPerBlock = 4, m_blockSize = 8,
     m_memBlocks = [\<lparr>m_data = [1, 9, 2, 8, 3, 7, 4, 6], m_offset = 0\<rparr>,
                   \<lparr>m_data = [5, 0, 0, 0, 0, 0, 0, 0], m_offset = 4\<rparr>],
     m_currentBlock = [1, 0], m_lastBlockFill = 1\<rparr>)
   \<and> destructor
    \<lparr>m_file = Some empty_stream, m_nChannels = 2, m_samplesPerBlock = 4, m_blockSize = 8,
     m_memBlocks = [\<lparr>m_data = [1, 9, 2, 8, 3, 7, 4, 6], m_offset = 0\<rparr>,
                   \<lparr>m_data = [5, 0, 0, 0, 0, 0, 0, 0], m_offset = 4\<rparr>],
     m_currentBlock = [1, 0], m_lastBlockFill = 1\<rparr>
   = Inr (Some \<lparr>written = [1, 9, 2, 8, 3, 7, 4, 6, 5, 0], healthy = True\<rparr>)"
proof -
  let ?s = "\<lparr>m_file = Some empty_stream, m_nChannels = 2, m_samplesPerBlock = 4, m_blockSize = 8,
     m_memBlocks = [\<lparr>m_data = [1, 9, 2, 8, 3, 7, 4, 6], m_offset = 0\<rparr>,
                   \<lparr>m_data = [5, 0, 0, 0, 0, 0, 0, 0], m_offset = 4\<rparr>],
     m_currentBlock = [1, 0], m_lastBlockFill = 1\<rparr>"
  have r: "run (constructor 2 4) [OpenFile (Some empty_stream), WriteChannel 0 0 [1, 2, 3, 4] 4, WriteChannel 0 1 [9, 8, 7, 6] 4, WriteChannel 4 0 [5] 1]
         = Inr ([True, True, True, True], ?s)"
    by code_simp
  have h: "m_file ?s = Some empty_stream \<and> healthy empty_stream \<and> m_memBlocks ?s \<noteq> []
    \<and> m_lastBlockFill ?s = of_nat 1 \<and> int 1 < m_samplesPerBlock ?s \<and> 0 \<le> m_nChannels ?s
    \<and> m_nChannels ?s * m_samplesPerBlock ?s < 2 ^ 31
    \<and> length (m_data (last (m_memBlocks ?s))) = nat (m_nChannels ?s * m_samplesPerBlock ?s)"
    by (simp add: empty_stream_def)
  from teardown_trims_final_block[of ?s empty_stream 1, THEN conjunct1, rule_format, OF h]
  obtain f' where d: "destructor ?s = Inr (Some f')"
    and w: "written f' = [1, 9, 2, 8, 3, 7, 4, 6, 5, 0]"
    by (auto simp: empty_stream_def)
  from d have "healthy f'"
    by (auto simp: destructor_Some stream_write_def empty_stream_def split: if_splits)
  with w have "f' = \<lparr>written = [1, 9, 2, 8, 3, 7, 4, 6, 5, 0], healthy = True\<rparr>"
    by simp
  with d r show ?thesis by simp
qed


section \<open>The number of appended blocks\<close>

text \<open>
  C5. The claim: the number of appended blocks is the ceiling of the shortfall
  \<open>startPos + nSamples - (lastOffset + samplesPerBlock)\<close> over \<open>samplesPerBlock\<close>.
  With one channel and blocks of four samples, a write of four samples at position 4
  into the freshly opened window has the shortfall \<open>4 + 4 - (0 + 4) = 4\<close>, whose
  ceiling over 4 is 1. The code computes the needed space as \<open>5\<close> and appends two
  blocks, at the offsets 4 and 8; the second one stays empty.
\<close>

theorem allocation_count_exact_multiple:
  "newBlockCount 4 0 4 4 = 2
   \<and> run (constructor 1 4) [OpenFile (Some empty_stream), WriteChannel 4 0 [5, 6, 7, 8] 4]
     = Inr ([True, True],
            \<lparr>m_file = Some empty_stream, m_nChannels = 1, m_samplesPerBlock = 4, m_blockSize = 4,
             m_memBlocks = [\<lparr>m_data = [0, 0, 0, 0], m_offset = 0\<rparr>,
                            \<lparr>m_data = [5, 6, 7, 8], m_offset = 4\<rparr>,
                            \<lparr>m_data = [0, 0, 0, 0], m_offset = 8\<rparr>],
             m_currentBlock = [1], m_lastBlockFill = 0\<rparr>)"
  by code_simp


section \<open>Eviction\<close>

text \<open>
  What the removal of \<open>allocateBlocks\<close> does: the first \<open>evictCount\<close> blocks go and the
  others stay at the front of the new window. The minimum is taken over the cursors of
  every channel, compared as unsigned 32-bit values, so a cursor that is not negative
  holds back every block from its own index on.
\<close>

lemma eviction_keeps_blocks_of_cursors:
  assumes "allocateBlocks s startIndex numSamples = Inr s'"
      and "length (m_currentBlock s) = nat (m_nChannels s)"
      and "\<forall>c\<in>set (m_currentBlock s). c < 2 ^ 31"
  shows "take (length (m_memBlocks s) - evictCount s) (m_memBlocks s') = drop (evictCount s) (m_memBlocks s)
       \<and> (\<forall>i<length (m_memBlocks s).
             (\<exists>c\<in>set (m_currentBlock s). 0 \<le> c \<and> c \<le> int i) \<longrightarrow>
               evictCount s \<le> i \<and> i - evictCount s < length (m_memBlocks s')
               \<and> m_memBlocks s' ! (i - evictCount s) = m_memBlocks s ! i)"
proof -
  let ?k = "evictCount s"
  note r = allocateBlocks_result[OF assms(1)]
  have kl: "?k \<le> length (m_memBlocks s)"
    by (simp add: evictCount_def removeCount_le)
  have app: "m_memBlocks s' = drop ?k (m_memBlocks s) @ drop (length (m_memBlocks s) - ?k) (m_memBlocks s')"
    unfolding r(2) addBlocks_append by simp
  have front: "take (length (m_memBlocks s) - ?k) (m_memBlocks s') = drop ?k (m_memBlocks s)"
    by (subst app) simp
  have kept: "?k \<le> i \<and> i - ?k < length (m_memBlocks s') \<and> m_memBlocks s' ! (i - ?k) = m_memBlocks s ! i"
    if i: "i < length (m_memBlocks s)" and c: "c \<in> set (m_currentBlock s)" "0 \<le> c" "c \<le> int i" for i c
  proof -
    from assms(3) c(1) have "c < 2 ^ 31" by blast
    with evictCount_le_cursor[OF assms(2) c(1,2)] have "int ?k \<le> c" by simp
    with c(3) have ki: "?k \<le> i" by simp
    with i have lt: "i - ?k < length (drop ?k (m_memBlocks s))" by simp
    then have "(drop ?k (m_memBlocks s) @ drop (length (m_memBlocks s) - ?k) (m_memBlocks s')) ! (i - ?k)
             = drop ?k (m_memBlocks s) ! (i - ?k)"
      by (simp add: nth_append)
    with app have "m_memBlocks s' ! (i - ?k) = drop ?k (m_memBlocks s) ! (i - ?k)" by simp
    also have "\<dots> = m_memBlocks s ! i" using ki i by simp
    finally have "m_memBlocks s' ! (i - ?k) = m_memBlocks s ! i" .
    moreover have "i - ?k < length (m_memBlocks s')"
      using lt by (subst app) simp
    ultimately show ?thesis using ki by simp
  qed
  from front kept show ?thesis by blast
qed

text \<open>
  C1. No block at relative index \<open>i\<close> is to be removed while the minimum of the channel
  cursors is at most \<open>i\<close>; a channel that has never written is to hold block 0. The code
  does not keep to this. Channel 0 of a file of two channels writes the samples 0 to 3
  and then sample 4; channel 1 has never written, its cursor is \<open>-1\<close> and the minimum
  of the cursors is \<open>-1 \<le> 0\<close>. The next request for room, \<open>allocateBlocks 8 1\<close>, reads
  \<open>-1\<close> as the unsigned \<open>0xFFFFFFFF\<close>, takes 1 as the minimum, removes block 0 and
  writes it to the file; the first write of channel 1, at position 0, then fails. When
  channel 0 writes the same samples 0 to 4 as one run, the first request for room finds
  every cursor at \<open>-1\<close> and moves them all to 0: from then on channel 1 does hold
  block 0, and the same later writes leave block 0 resident and succeed.
\<close>

theorem eviction_ignores_unwritten_channel:
  "run (constructor 2 4) [OpenFile (Some empty_stream), WriteChannel 0 0 [1, 2, 3, 4] 4, WriteChannel 4 0 [5] 1]
   = Inr ([True, True, True],
    \<lparr>m_file = Some empty_stream, m_nChannels = 2, m_samplesPerBlock = 4, m_blockSize = 8,
     m_memBlocks = [\<lparr>m_data = [1, 0, 2, 0, 3, 0, 4, 0], m_offset = 0\<rparr>,
                   \<lparr>m_data = [5, 0, 0, 0, 0, 0, 0, 0], m_offset = 4\<rparr>],
     m_currentBlock = [1, - 1], m_lastBlockFill = 1\<rparr>)
   \<and> Min (set [1, - 1 :: int]) = - 1
   \<and> allocateBlocks
    \<lparr>m_file = Some empty_stream, m_nChannels = 2, m_samplesPerBlock = 4, m_blockSize = 8,
     m_memBlocks = [\<lparr>m_data = [1, 0, 2, 0, 3, 0, 4, 0], m_offset = 0\<rparr>,
                   \<lparr>m_data = [5, 0, 0, 0, 0, 0, 0, 0], m_offset = 4\<rparr>],
     m_currentBlock = [1, - 1], m_lastBlockFill = 1\<rparr> 8 1
   = Inr
    \<lparr>m_file = Some \<lparr>written = [1, 0, 2, 0, 3, 0, 4, 0], healthy = True\<rparr>, m_nChannels = 2, m_samplesPerBlock = 4, m_blockSize = 8,
     m_memBlocks = [\<lparr>m_data = [5, 0, 0, 0, 0, 0, 0, 0], m_offset = 4\<rparr>,
                   \<lparr>m_data = [0, 0, 0, 0, 0, 0, 0, 0], m_offset = 8\<rparr>],
     m_currentBlock = [0, - 2], m_lastBlockFill = 0\<rparr>
   \<and> run (constructor 2 4) [OpenFile (Some empty_stream), WriteChannel 0 0 [1, 2, 3, 4] 4, WriteChannel 4 0 [5] 1, WriteChannel 8 0 [6] 1, WriteChannel 0 1 [9, 8, 7, 6] 4]
   = Inr ([True, True, True, True, False],
    \<lparr>m_file = Some \<lparr>written = [1, 0, 2, 0, 3, 0, 4, 0], healthy = True\<rparr>, m_nChannels = 2, m_samplesPerBlock = 4, m_blockSize = 8,
     m_memBlocks = [\<lparr>m_data = [5, 0, 0, 0, 0, 0, 0, 0], m_offset = 4\<rparr>,
                   \<lparr>m_data = [6, 0, 0, 0, 0, 0, 0, 0], m_offset = 8\<rparr>],
     m_currentBlock = [1, - 2], m_lastBlockFill = 1\<rparr>)
   \<and> run (constructor 2 4) [OpenFile (Some empty_stream), WriteChannel 0 0 [1, 2, 3, 4, 5] 5, WriteChannel 8 0 [6] 1, WriteChannel 0 1 [9, 8, 7, 6] 4]
   = Inr ([True, True, True, True],
    \<lparr>m_file = Some empty_stream, m_nChannels = 2, m_samplesPerBlock = 4, m_blockSize = 8,
     m_memBlocks = [\<lparr>m_data = [1, 9, 2, 8, 3, 7, 4, 6], m_offset = 0\<rparr>,
                   \<lparr>m_data = [5, 0, 0, 0, 0, 0, 0, 0], m_offset = 4\<rparr>,
                   \<lparr>m_data = [6, 0, 0, 0, 0, 0, 0, 0], m_offset = 8\<rparr>],
     m_currentBlock = [2, 0], m_lastBlockFill = 1\<rparr>)"
  by code_simp


section \<open>Stale writes\<close>

lemma ensureCapacity_covered:
  assumes "m_memBlocks s \<noteq> []"
      and "\<not> getOffset (last (m_memBlocks s)) + word_of_int (m_samplesPerBlock s) < startPos + word_of_int n"
  shows "ensureCapacity s startPos n = Inr s"
proof -
  from assms(1) have "nat (int (length (m_memBlocks s)) - 1) = length (m_memBlocks s) - 1"
    and nn: "\<not> int (length (m_memBlocks s)) - 1 < 0"
    by (cases "m_memBlocks s"; simp)+
  with assms(1) have "m_memBlocks s ! nat (int (length (m_memBlocks s)) - 1) = last (m_memBlocks s)"
    by (simp add: last_conv_nth)
  with assms(2) nn show ?thesis
    by (simp add: ensureCapacity_def Let_def)
qed

lemma all_blocks_later:
  assumes "ascending spb bs" and "0 \<le> spb" and "startPos < getOffset (bs ! 0)"
  shows "\<forall>i<length bs. startPos < getOffset (bs ! i)"
proof (intro allI impI)
  fix i assume "i < length bs"
  with ascending_mono[OF assms(1,2), of 0 i]
  have "uint (getOffset (bs ! 0)) \<le> uint (getOffset (bs ! i))" by simp
  moreover from assms(3) have "uint startPos < uint (getOffset (bs ! 0))"
    by (simp add: word_less_uint)
  ultimately show "startPos < getOffset (bs ! i)"
    by (simp add: word_less_uint)
qed

text \<open>
  C2 (as amended). With the file open, a write whose start lies below the offset of the
  first resident block fails. When the last block already covers the end of the run, so
  that \<open>allocateBlocks\<close> is not called, the state is left as it was. In every case a
  failing call copies no sample: its state is the one it was given or the one that
  \<open>allocateBlocks\<close> returned.
\<close>

theorem stale_write_leaves_state:
  "(m_file s \<noteq> None \<and> ascending (m_samplesPerBlock s) (m_memBlocks s) \<and> 0 \<le> m_samplesPerBlock s
      \<and> startPos < getOffset (m_memBlocks s ! 0)
      \<and> \<not> getOffset (last (m_memBlocks s)) + word_of_int (m_samplesPerBlock s)
            < startPos + word_of_int nSamples
    \<longrightarrow> writeChannel s startPos channel data nSamples = Inr (False, s))
   \<and> (\<forall>s'. writeChannel s startPos channel data nSamples = Inr (False, s')
          \<longrightarrow> s' = s \<or> allocateBlocks s startPos nSamples = Inr s')"
proof (intro conjI impI allI)
  assume a: "m_file s \<noteq> None \<and> ascending (m_samplesPerBlock s) (m_memBlocks s) \<and> 0 \<le> m_samplesPerBlock s
      \<and> startPos < getOffset (m_memBlocks s ! 0)
      \<and> \<not> getOffset (last (m_memBlocks s)) + word_of_int (m_samplesPerBlock s)
            < startPos + word_of_int nSamples"
  then have ne: "m_memBlocks s \<noteq> []" using ascending_nonempty by blast
  from a ne have en: "ensureCapacity s startPos nSamples = Inr s"
    by (intro ensureCapacity_covered) simp_all
  from a have "\<forall>i<length (m_memBlocks s). startPos < getOffset (m_memBlocks s ! i)"
    by (intro all_blocks_later[of "m_samplesPerBlock s"]) simp_all
  then have "findBlock (m_memBlocks s) startPos (length (m_memBlocks s)) < 0"
    by (simp only: findBlock_neg_iff)
  with a ne en show "writeChannel s startPos channel data nSamples = Inr (False, s)"
    by (auto simp: writeChannel_def locateAndCopy_def)
next
  fix s' assume w: "writeChannel s startPos channel data nSamples = Inr (False, s')"
  show "s' = s \<or> allocateBlocks s startPos nSamples = Inr s'"
  proof (cases "m_file s = None")
    case True
    with w show ?thesis by (simp add: writeChannel_closed)
  next
    case False
    from w False show ?thesis
    proof (cases rule: writeChannel_open_cases)
      case (stale s1)
      with ensureCapacity_cases(2)[OF stale(1)] show ?thesis by simp
    next
      case (written s1 l)
      then show ?thesis by simp
    qed
  qed
qed

theorem stale_write_leaves_state_witness:
  "writeChannel
    \<lparr>m_file = Some \<lparr>written = [1, 0, 2, 0, 3, 0, 4, 0], healthy = True\<rparr>, m_nChannels = 2, m_samplesPerBlock = 4, m_blockSize = 8,
     m_memBlocks = [\<lparr>m_data = [5, 0, 0, 0, 0, 0, 0, 0], m_offset = 4\<rparr>,
                   \<lparr>m_data = [5, 0, 0, 0, 0, 0, 0, 0], m_offset = 8\<rparr>],
     m_currentBlock = [1, - 2], m_lastBlockFill = 1\<rparr> 0 1 [9, 8, 7, 6] 4
   = Inr (False,
    \<lparr>m_file = Some \<lparr>written = [1, 0, 2, 0, 3, 0, 4, 0], healthy = True\<rparr>, m_nChannels = 2, m_samplesPerBlock = 4, m_blockSize = 8,
     m_memBlocks = [\<lparr>m_data = [5, 0, 0, 0, 0, 0, 0, 0], m_offset = 4\<rparr>,
                   \<lparr>m_data = [5, 0, 0, 0, 0, 0, 0, 0], m_offset = 8\<rparr>],
     m_currentBlock = [1, - 2], m_lastBlockFill = 1\<rparr>)"
proof -
  let ?s = "\<lparr>m_file = Some \<lparr>written = [1, 0, 2, 0, 3, 0, 4, 0], healthy = True\<rparr>, m_nChannels = 2, m_samplesPerBlock = 4, m_blockSize = 8,
     m_memBlocks = [\<lparr>m_data = [5, 0, 0, 0, 0, 0, 0, 0], m_offset = 4\<rparr>,
                   \<lparr>m_data = [5, 0, 0, 0, 0, 0, 0, 0], m_offset = 8\<rparr>],
     m_currentBlock = [1, - 2], m_lastBlockFill = 1\<rparr>"
  have asc: "ascending (m_samplesPerBlock ?s) (m_memBlocks ?s)"
    by (simp add: ascending_def getOffset_def less_Suc_eq)
  have h: "m_file ?s \<noteq> None \<and> ascending (m_samplesPerBlock ?s) (m_memBlocks ?s) \<and> 0 \<le> m_samplesPerBlock ?s
      \<and> 0 < getOffset (m_memBlocks ?s ! 0)
      \<and> \<not> getOffset (last (m_memBlocks ?s)) + word_of_int (m_samplesPerBlock ?s) < 0 + word_of_int 4"
    using asc by (simp add: getOffset_def)
  from stale_write_leaves_state[of ?s 0 4 1 "[9, 8, 7, 6]"] h show ?thesis
    by blast
qed

text \<open>
  The claim as stated fails when the stale write also asks for room past the tail. In the
  window reached below, with blocks at the offsets 4 and 8, a write of channel 1 at
  position 0 of thirteen samples fails, but \<open>allocateBlocks\<close> has run first: the block
  at offset 4 is flushed and gone, a block at offset 12 is appended, both cursors and
  the fill mark have changed.
\<close>

theorem stale_write_after_allocation_changes_state:
  "run (constructor 2 4) [OpenFile (Some empty_stream), WriteChannel 0 0 [1, 2, 3, 4] 4, WriteChannel 4 0 [5] 1, WriteChannel 8 0 [5] 1]
   = Inr ([True, True, True, True],
    \<lparr>m_file = Some \<lparr>written = [1, 0, 2, 0, 3, 0, 4, 0], healthy = True\<rparr>, m_nChannels = 2, m_samplesPerBlock = 4, m_blockSize = 8,
     m_memBlocks = [\<lparr>m_data = [5, 0, 0, 0, 0, 0, 0, 0], m_offset = 4\<rparr>,
                   \<lparr>m_data = [5, 0, 0, 0, 0, 0, 0, 0], m_offset = 8\<rparr>],
     m_currentBlock = [1, - 2], m_lastBlockFill = 1\<rparr>)
   \<and> writeChannel
    \<lparr>m_file = Some \<lparr>written = [1, 0, 2, 0, 3, 0, 4, 0], healthy = True\<rparr>, m_nChannels = 2, m_samplesPerBlock = 4, m_blockSize = 8,
     m_memBlocks = [\<lparr>m_data = [5, 0, 0, 0, 0, 0, 0, 0], m_offset = 4\<rparr>,
                   \<lparr>m_data = [5, 0, 0, 0, 0, 0, 0, 0], m_offset = 8\<rparr>],
     m_currentBlock = [1, - 2], m_lastBlockFill = 1\<rparr> 0 1 [9, 9, 9, 9, 9, 9, 9, 9, 9, 9, 9, 9, 9] 13
   = Inr (False,
    \<lparr>m_file = Some \<lparr>written = [1, 0, 2, 0, 3, 0, 4, 0, 5, 0, 0, 0, 0, 0, 0, 0], healthy = True\<rparr>, m_nChannels = 2, m_samplesPerBlock = 4, m_blockSize = 8,
     m_memBlocks = [\<lparr>m_data = [5, 0, 0, 0, 0, 0, 0, 0], m_offset = 8\<rparr>,
                   \<lparr>m_data = [0, 0, 0, 0, 0, 0, 0, 0], m_offset = 12\<rparr>],
     m_currentBlock = [0, - 3], m_lastBlockFill = 0\<rparr>)"
  by code_simp


section \<open>Writes of no samples\<close>









section \<open>Interleaved placement\<close>





section \<open>The result of \<open>writeChannel\<close>\<close>









end
